theory Spec2Isabelle
  imports Complex_Main "HOL-Library.Word"
begin

section \<open>Go primitives used by the embedding\<close>

text \<open>
  Go's \<open>int\<close> and \<open>int64\<close> are 64-bit two's complement integers (the model assumes a
  64-bit platform). Values are carried as \<open>int\<close>; every arithmetic result that the
  program stores is wrapped with \<open>wrap_int64\<close>.
\<close>

definition wrap_int64 :: "int \<Rightarrow> int" where
  "wrap_int64 x = (x + 2 ^ 63) mod 2 ^ 64 - 2 ^ 63"

text \<open>
  The outcome of a call that may panic or may never return. \<open>Hangs\<close> is only produced
  by operations that wait for another goroutine: it means that the wait was not over
  when the given finite schedule of that goroutine was used up.
\<close>

datatype 'a outcome = Returns 'a | Panics | Hangs

section \<open>Package fail: the batched failure logger\<close>

text \<open>
  \<open>fail.Record\<close>. The timestamp is kept as an opaque number of nanoseconds; its
  textual formatting plays no role in the properties below.
\<close>

record Record =
  rec_Timestamp :: int
  rec_Operation :: string
  rec_Username :: string
  rec_DN :: string
  rec_Filter :: string
  rec_Error :: string

text \<open>A row of the CSV file: the header line or one flushed record.\<close>

datatype row = Header | Row Record

text \<open>
  Where the goroutine \<open>run\<close> currently is: before \<open>os.OpenFile\<close>; in the
  \<open>for range l.ch\<close> loop entered when opening failed; in the main \<open>select\<close> loop; in
  the inner drain loop of the \<open>stopCh\<close> case; or returned (\<open>wg.Done\<close> executed).
\<close>

datatype run_pc = Starting | Discarding | Serving | Draining | Finished

text \<open>
  \<open>fail.Logger\<close> together with the state of its goroutine and of the file.
  \<open>ch\<close> holds the queued records, oldest first, and \<open>ch_cap\<close> the capacity the
  channel was made with. \<open>stopCh_closed\<close> tells whether \<open>stopCh\<close> has been closed.
  \<open>openable\<close> is the answer \<open>os.OpenFile\<close> will give (an input from the environment),
  \<open>written\<close> the rows appended to the file so far, \<open>buf\<close> the local batch buffer of
  \<open>run\<close>. Writes to an opened file are taken to succeed.
\<close>

record Logger =
  path :: string
  batch :: int
  ch :: "Record list"
  ch_cap :: int
  stopCh_closed :: bool
  openable :: bool
  pc :: run_pc
  buf :: "Record list"
  written :: "row list"

text \<open>
  \<open>fail.New\<close>. A \<open>*Logger\<close> is a \<open>Logger option\<close>, \<open>None\<close> being \<open>nil\<close>. \<open>make(chan Record, n)\<close>
  panics for a negative \<open>n\<close>, which \<open>batch*4\<close> can only become by wrapping around.
  The first argument is the environment's answer to the later \<open>os.OpenFile\<close>.
\<close>

definition fail_New :: "bool \<Rightarrow> string \<Rightarrow> int \<Rightarrow> Logger option outcome" where
  "fail_New can_open p b =
     (if p = [] then Returns None
      else let b' = (if b \<le> 0 then 256 else b); n = wrap_int64 (b' * 4)
           in if n < 0 then Panics
              else Returns (Some \<lparr>path = p, batch = b', ch = [], ch_cap = n,
                     stopCh_closed = False, openable = can_open, pc = Starting,
                     buf = [], written = []\<rparr>))"

text \<open>
  \<open>Log\<close>: a \<open>select\<close> with a \<open>default\<close> case, so it never waits. The send case is ready
  exactly when the channel buffer has room. (A channel of capacity 0, which only a
  wrapped product can give, could also hand a record to a receiver that is waiting;
  the model drops the record then.)
\<close>

definition try_send :: "Record \<Rightarrow> Logger \<Rightarrow> Logger" where
  "try_send r l = (if int (length (ch l)) < ch_cap l then l\<lparr>ch := ch l @ [r]\<rparr> else l)"

fun Log :: "Logger option \<Rightarrow> Record \<Rightarrow> Logger option" where
  "Log None r = None"
| "Log (Some l) r = Some (try_send r l)"

text \<open>The closure \<open>flush\<close> of \<open>run\<close>.\<close>

definition flush :: "Logger \<Rightarrow> Logger" where
  "flush l = (if buf l = [] then l else l\<lparr>written := written l @ map Row (buf l), buf := []\<rparr>)"

text \<open>\<open>buf = append(buf, r); if len(buf) >= l.batch { flush() }\<close>, after receiving \<open>r\<close>.\<close>

definition receive :: "Record \<Rightarrow> Logger \<Rightarrow> Logger" where
  "receive r l =
     (let l' = l\<lparr>buf := buf l @ [r]\<rparr>
      in if int (length (buf l')) \<ge> batch l' then flush l' else l')"

text \<open>
  Which case the main \<open>select\<close> of \<open>run\<close> takes next. Go chooses among the ready cases
  at random, so the choice is an input; a case that is not ready leaves the state as it is.
  The ticker case may be chosen at any time.
\<close>

datatype select_case = CaseStop | CaseRecv | CaseTick

text \<open>
  One step of the goroutine \<open>run\<close>. In \<open>Discarding\<close> the loop \<open>for range l.ch\<close> takes
  one record if there is one and otherwise waits; it would end only when \<open>l.ch\<close> is
  closed, and nothing in the package closes \<open>l.ch\<close>.
\<close>

definition run_step :: "select_case \<Rightarrow> Logger \<Rightarrow> Logger" where
  "run_step c l =
     (case pc l of
        Starting \<Rightarrow>
          (if openable l then l\<lparr>written := written l @ [Header], buf := [], pc := Serving\<rparr>
           else l\<lparr>pc := Discarding\<rparr>)
      | Discarding \<Rightarrow> (case ch l of [] \<Rightarrow> l | r # q \<Rightarrow> l\<lparr>ch := q\<rparr>)
      | Serving \<Rightarrow>
          (case c of
             CaseStop \<Rightarrow> (if stopCh_closed l then l\<lparr>pc := Draining\<rparr> else l)
           | CaseRecv \<Rightarrow> (case ch l of [] \<Rightarrow> l | r # q \<Rightarrow> receive r (l\<lparr>ch := q\<rparr>))
           | CaseTick \<Rightarrow> flush l)
      | Draining \<Rightarrow>
          (case ch l of
             [] \<Rightarrow> (flush l)\<lparr>pc := Finished\<rparr>
           | r # q \<Rightarrow> receive r (l\<lparr>ch := q\<rparr>))
      | Finished \<Rightarrow> l)"

text \<open>
  \<open>l.wg.Wait()\<close>: returns as soon as \<open>run\<close> has returned. The list is the sequence of
  choices \<open>run\<close> makes while the caller waits.
\<close>

fun wg_Wait :: "select_case list \<Rightarrow> Logger \<Rightarrow> Logger option" where
  "wg_Wait sched l =
     (if pc l = Finished then Some l
      else case sched of [] \<Rightarrow> None | c # cs \<Rightarrow> wg_Wait cs (run_step c l))"

declare wg_Wait.simps [simp del]

text \<open>\<open>Close\<close>. Closing \<open>stopCh\<close> a second time panics.\<close>

fun Close :: "select_case list \<Rightarrow> Logger option \<Rightarrow> Logger option outcome" where
  "Close sched None = Returns None"
| "Close sched (Some l) =
     (if stopCh_closed l then Panics
      else case wg_Wait sched (l\<lparr>stopCh_closed := True\<rparr>) of
             None \<Rightarrow> Hangs
           | Some l' \<Rightarrow> Returns (Some l'))"

text \<open>
  What can happen to a started logger: a producer calls \<open>Log\<close>, the goroutine \<open>run\<close>
  makes a step, or \<open>stopCh\<close> is closed (the first statement of \<open>Close\<close>). A run of the
  logger is a list of such events, in the order in which they take effect.
\<close>

datatype event = Ev_Log Record | Ev_run select_case | Ev_close_stopCh

fun apply_event :: "Logger \<Rightarrow> event \<Rightarrow> Logger" where
  "apply_event l (Ev_Log r) = try_send r l"
| "apply_event l (Ev_run c) = run_step c l"
| "apply_event l Ev_close_stopCh = l\<lparr>stopCh_closed := True\<rparr>"

definition exec_events :: "Logger \<Rightarrow> event list \<Rightarrow> Logger" where
  "exec_events l evs = foldl apply_event l evs"

text \<open>The records that have reached the file, and the number of \<open>Log\<close> calls of a run.\<close>

fun persisted :: "row list \<Rightarrow> Record list" where
  "persisted [] = []"
| "persisted (Header # rs) = persisted rs"
| "persisted (Row r # rs) = r # persisted rs"

fun log_calls :: "event list \<Rightarrow> nat" where
  "log_calls [] = 0"
| "log_calls (Ev_Log r # evs) = Suc (log_calls evs)"
| "log_calls (e # evs) = log_calls evs"

text \<open>
  Two notions for the proofs: the records that are on their way (written, batched or
  queued, in this order), and the state in which \<open>run\<close> has returned with nothing left.
\<close>

definition pending :: "Logger \<Rightarrow> Record list" where
  "pending l = persisted (written l) @ buf l @ ch l"

definition settled :: "Logger \<Rightarrow> bool" where
  "settled l \<longleftrightarrow> pc l = Finished \<and> ch l = [] \<and> buf l = []"

section \<open>Package metrics: latency statistics\<close>

subsection \<open>Integer division and float64 arithmetic of Go\<close>

text \<open>
  Go's \<open>/\<close> and \<open>%\<close> on integers truncate towards zero and panic on a zero divisor
  (\<open>None\<close>). The quotient is wrapped, as \<open>MinInt64 / -1\<close> is in Go.
\<close>

definition go_div :: "int \<Rightarrow> int \<Rightarrow> int option" where
  "go_div a b = (if b = 0 then None else Some (wrap_int64 (sgn a * sgn b * (\<bar>a\<bar> div \<bar>b\<bar>))))"

definition go_mod :: "int \<Rightarrow> int \<Rightarrow> int option" where
  "go_mod a b = (if b = 0 then None else Some (sgn a * (\<bar>a\<bar> mod \<bar>b\<bar>)))"

text \<open>
  A \<open>float64\<close>: \<open>Finite m e\<close> stands for the number \<open>m * 2 ^ e\<close> (the sign of a zero is
  not kept: no operation below can tell the two zeros apart).
\<close>

datatype float64 = Finite int int | PosInf | NegInf | NaN

fun bit_length :: "nat \<Rightarrow> nat" where
  "bit_length n = (if n = 0 then 0 else Suc (bit_length (n div 2)))"

declare bit_length.simps [simp del]

text \<open>
  Rounding of the exact number \<open>m * 2 ^ e\<close> to the nearest \<open>float64\<close>, ties to even:
  the lowest \<open>d\<close> bits of \<open>m\<close> are dropped, where \<open>d\<close> leaves 53 significant bits
  and no bit below \<open>2 ^ -1074\<close>; a result of magnitude \<open>2 ^ 1024\<close> or more is an infinity.
\<close>

definition round_nearest_even :: "nat \<Rightarrow> nat \<Rightarrow> nat" where
  "round_nearest_even a d =
     (let lo = a div 2 ^ d; r = a mod 2 ^ d
      in if 2 * r > 2 ^ d \<or> (2 * r = 2 ^ d \<and> odd lo) then lo + 1 else lo)"

definition round_float64 :: "int \<Rightarrow> int \<Rightarrow> float64" where
  "round_float64 m e =
     (let a = nat \<bar>m\<bar>;
          d = max (int (bit_length a) - 53) (- 1074 - e)
      in if m = 0 then Finite 0 0
         else if d \<le> 0 then (if int (bit_length a) + e > 1024
                         then (if m < 0 then NegInf else PosInf) else Finite m e)
         else let a' = round_nearest_even a (nat d)
              in if int (bit_length a') + (e + d) > 1024
                 then (if m < 0 then NegInf else PosInf)
                 else Finite (sgn m * int a') (e + d))"

text \<open>The conversion \<open>float64(n)\<close> of an integer and the product \<open>x * y\<close> of two floats.\<close>

definition float64_of_int :: "int \<Rightarrow> float64" where
  "float64_of_int n = round_float64 n 0"

fun fmul :: "float64 \<Rightarrow> float64 \<Rightarrow> float64" where
  "fmul (Finite m1 e1) (Finite m2 e2) = round_float64 (m1 * m2) (e1 + e2)"
| "fmul NaN y = NaN"
| "fmul x NaN = NaN"
| "fmul PosInf (Finite m e) = (if m = 0 then NaN else if m < 0 then NegInf else PosInf)"
| "fmul NegInf (Finite m e) = (if m = 0 then NaN else if m < 0 then PosInf else NegInf)"
| "fmul (Finite m e) PosInf = (if m = 0 then NaN else if m < 0 then NegInf else PosInf)"
| "fmul (Finite m e) NegInf = (if m = 0 then NaN else if m < 0 then PosInf else NegInf)"
| "fmul PosInf PosInf = PosInf"
| "fmul NegInf NegInf = PosInf"
| "fmul PosInf NegInf = NegInf"
| "fmul NegInf PosInf = NegInf"

text \<open>The comparisons \<open>p <= 0\<close> and \<open>p >= 1\<close>; both are false for a NaN.\<close>

fun f_le_0 :: "float64 \<Rightarrow> bool" where
  "f_le_0 (Finite m e) = (m \<le> 0)"
| "f_le_0 NegInf = True"
| "f_le_0 PosInf = False"
| "f_le_0 NaN = False"

fun f_ge_1 :: "float64 \<Rightarrow> bool" where
  "f_ge_1 (Finite m e) = (if e \<ge> 0 then m \<ge> 1 else m \<ge> 2 ^ nat (- e))"
| "f_ge_1 PosInf = True"
| "f_ge_1 NegInf = False"
| "f_ge_1 NaN = False"

text \<open>
  The conversion \<open>int(x)\<close>: truncation towards zero. For a NaN, an infinity or a number
  outside the range of \<open>int\<close> the Go specification leaves the result to the
  implementation; \<open>impl\<close> is that choice.
\<close>

fun int_of_float64 :: "(float64 \<Rightarrow> int) \<Rightarrow> float64 \<Rightarrow> int" where
  "int_of_float64 impl (Finite m e) =
     (let t = (if e \<ge> 0 then m * 2 ^ nat e else sgn m * (\<bar>m\<bar> div 2 ^ nat (- e)))
      in if - (2 ^ 63) \<le> t \<and> t < 2 ^ 63 then t else wrap_int64 (impl (Finite m e)))"
| "int_of_float64 impl x = wrap_int64 (impl x)"

text \<open>
  One such choice, that of the amd64 compiler: the smallest \<open>int64\<close> for every value
  that cannot be converted.
\<close>

definition impl_amd64 :: "float64 \<Rightarrow> int" where
  "impl_amd64 x = - (2 ^ 63)"

text \<open>The real number a finite \<open>float64\<close> stands for (used in statements only).\<close>

fun fval :: "float64 \<Rightarrow> real" where
  "fval (Finite m e) = real_of_int m * 2 powr (real_of_int e)"
| "fval x = 0"

text \<open>The constants \<open>0.50\<close>, \<open>0.95\<close> and \<open>0.99\<close>, each the nearest \<open>float64\<close>.\<close>

definition f_0_50 :: float64 where "f_0_50 = Finite 1 (- 1)"
definition f_0_95 :: float64 where "f_0_95 = Finite 8556839292003942 (- 53)"
definition f_0_99 :: float64 where "f_0_99 = Finite 8917127262193582 (- 53)"

subsection \<open>percentile and the latency recorder\<close>

text \<open>
  \<open>percentile\<close>. A \<open>time.Duration\<close> is an \<open>int64\<close> number of nanoseconds. Every index
  the function reads is within the slice, so no read can panic. The parameter \<open>srt\<close>
  is the slice \<open>sorted\<close> of the source.
\<close>

definition percentile :: "(float64 \<Rightarrow> int) \<Rightarrow> int list \<Rightarrow> float64 \<Rightarrow> int" where
  "percentile impl srt p =
     (if length srt = 0 then 0
      else if f_le_0 p then srt ! 0
      else if f_ge_1 p then srt ! (length srt - 1)
      else let rank = int_of_float64 impl (fmul (float64_of_int (int (length srt))) p)
           in if rank \<le> 0 then srt ! 0
              else if rank \<ge> int (length srt) then srt ! (length srt - 1)
              else srt ! nat rank)"

text \<open>
  The rank as the specification words it, for comparison: the floor of the product of
  the numbers \<open>N\<close> and \<open>p\<close>, clamped to \<open>[0, N - 1]\<close>.
\<close>

definition nearest_rank_exact :: "nat \<Rightarrow> real \<Rightarrow> nat" where
  "nearest_rank_exact N p = nat (max 0 (min (int N - 1) \<lfloor>real N * p\<rfloor>))"

record LatencyStats =
  Count :: int
  Avg :: int
  P50 :: int
  P95 :: int
  P99 :: int

definition zero_LatencyStats :: LatencyStats where
  "zero_LatencyStats = \<lparr>Count = 0, Avg = 0, P50 = 0, P95 = 0, P99 = 0\<rparr>"

text \<open>
  \<open>LatencyRecorder\<close>. The mutex makes every method one indivisible step, so a method
  is a function from the recorder to its result and the recorder afterwards.
\<close>

record LatencyRecorder =
  totalCount :: int
  totalSum :: int
  sample :: "int list"
  cap :: int
  window :: "int list"

definition NewLatencyRecorder :: "int \<Rightarrow> LatencyRecorder" where
  "NewLatencyRecorder capacity =
     \<lparr>totalCount = 0, totalSum = 0, sample = [],
      cap = (if capacity < 0 then 0 else capacity), window = []\<rparr>"

text \<open>
  \<open>Record\<close>; \<open>now\<close> is the value of \<open>time.Now().UnixNano()\<close>. The remainder panics for a
  zero count and the indexed store for a negative index.
\<close>

definition Record :: "int \<Rightarrow> int \<Rightarrow> LatencyRecorder \<Rightarrow> LatencyRecorder outcome" where
  "Record now d l =
     (let l1 = l\<lparr>totalCount := wrap_int64 (totalCount l + 1),
                 totalSum := wrap_int64 (totalSum l + d)\<rparr>
      in if cap l1 > 0 then
           (if int (length (sample l1)) < cap l1
            then Returns (l1\<lparr>sample := sample l1 @ [d], window := window l1 @ [d]\<rparr>)
            else case go_mod now (totalCount l1) of
                   None \<Rightarrow> Panics
                 | Some idx \<Rightarrow>
                     if idx < cap l1 then
                       (if idx < 0 \<or> idx \<ge> int (length (sample l1)) then Panics
                        else Returns (l1\<lparr>sample := (sample l1)[nat idx := d],
                                          window := window l1 @ [d]\<rparr>))
                     else Returns (l1\<lparr>window := window l1 @ [d]\<rparr>))
         else Returns (l1\<lparr>window := window l1 @ [d]\<rparr>))"

text \<open>\<open>TotalSnapshot\<close>; the recorder is left as it is.\<close>

definition TotalSnapshot :: "(float64 \<Rightarrow> int) \<Rightarrow> LatencyRecorder \<Rightarrow> LatencyStats outcome" where
  "TotalSnapshot impl l =
     (case (if totalCount l > 0 then go_div (totalSum l) (totalCount l) else Some 0) of
        None \<Rightarrow> Panics
      | Some avg \<Rightarrow>
          (if length (sample l) > 0 then
             (let tmp = sort (sample l)
              in Returns \<lparr>Count = totalCount l, Avg = avg,
                          P50 = percentile impl tmp f_0_50,
                          P95 = percentile impl tmp f_0_95,
                          P99 = percentile impl tmp f_0_99\<rparr>)
           else Returns \<lparr>Count = totalCount l, Avg = avg, P50 = 0, P95 = 0, P99 = 0\<rparr>))"






section \<open>Package runner\<close>

subsection \<open>strings.Contains and fmt.Sprintf\<close>

text \<open>\<open>strings.Contains s sub\<close>: \<open>sub\<close> occurs in \<open>s\<close> as a contiguous block.\<close>

fun Contains :: "string \<Rightarrow> string \<Rightarrow> bool" where
  "Contains [] sub = (sub = [])"
| "Contains (c # cs) sub = (take (length sub) (c # cs) = sub \<or> Contains cs sub)"

text \<open>
  \<open>fmt.Sprintf\<close> belongs to Go's standard library, not to the repository. \<open>doPrintf\<close>
  follows the loop of the same name in package \<open>fmt\<close> for operands that are all
  strings: text up to the next \<open>%\<close> is copied; \<open>%%\<close> gives \<open>%\<close>; a \<open>%\<close> at the very end
  gives \<open>%!(NOVERB)\<close>; a verb with no operand left gives \<open>%!v(MISSING)\<close> for the verb
  \<open>v\<close>; otherwise the verb takes the next operand, which \<open>%s\<close> and \<open>%v\<close> print as it is,
  \<open>%T\<close> prints as its type and any other verb reports as \<open>%!v(string=...)\<close>; operands
  left over at the end are reported as \<open>%!(EXTRA string=...)\<close>.
  Flags, widths, precisions, operand indices, the verbs \<open>q\<close>, \<open>x\<close>, \<open>X\<close> and verbs that
  are not ASCII are outside this fragment: for them the result is \<open>None\<close>.
\<close>

definition outside_fragment :: "char \<Rightarrow> bool" where
  "outside_fragment v \<longleftrightarrow>
     v \<in> set ''#0+- 123456789.*[qxX'' \<or> (of_char v :: nat) \<ge> 128"

definition verb_string :: "char \<Rightarrow> string \<Rightarrow> string" where
  "verb_string v a =
     (if v = CHR ''s'' \<or> v = CHR ''v'' then a
      else if v = CHR ''T'' then ''string''
      else ''%!'' @ [v] @ ''(string='' @ a @ '')'')"

fun extra_operands :: "string list \<Rightarrow> string" where
  "extra_operands [] = []"
| "extra_operands [a] = ''string='' @ a"
| "extra_operands (a # as) = ''string='' @ a @ '', '' @ extra_operands as"

definition extraString :: "string list \<Rightarrow> string" where
  "extraString as = (if as = [] then [] else ''%!(EXTRA '' @ extra_operands as @ '')'')"

fun doPrintf :: "string \<Rightarrow> string list \<Rightarrow> string option" where
  "doPrintf [] as = Some (extraString as)"
| "doPrintf (c # fs) as =
     (if c \<noteq> CHR ''%'' then map_option ((#) c) (doPrintf fs as)
      else case fs of
             [] \<Rightarrow> Some (''%!(NOVERB)'' @ extraString as)
           | v # rest \<Rightarrow>
               if v = CHR ''%'' then map_option ((#) CHR ''%'') (doPrintf rest as)
               else if outside_fragment v then None
               else (case as of
                       [] \<Rightarrow> map_option ((@) (''%!'' @ [v] @ ''(MISSING)'')) (doPrintf rest [])
                     | a # as' \<Rightarrow> map_option ((@) (verb_string v a)) (doPrintf rest as')))"

text \<open>
  \<open>fmt.Sprintf(f, a)\<close> with one string operand. \<open>lib\<close> stands for the library's result
  on the formats outside the fragment above; every statement below holds for any \<open>lib\<close>.
\<close>

definition Sprintf :: "(string \<Rightarrow> string \<Rightarrow> string) \<Rightarrow> string \<Rightarrow> string \<Rightarrow> string" where
  "Sprintf lib f a = (case doPrintf f [a] of Some s \<Rightarrow> s | None \<Rightarrow> lib f a)"

text \<open>A choice of \<open>lib\<close> for examples: it is never consulted inside the fragment.\<close>

definition lib_none :: "string \<Rightarrow> string \<Rightarrow> string" where
  "lib_none f a = []"

subsection \<open>Configuration, users, metrics\<close>

text \<open>The fields of \<open>config.Config\<close> that the modelled code reads. \<open>Mode\<close> is a string type.\<close>

record Config =
  Mode :: string
  Filter :: string
  Concurrency :: int
  Connections :: int

definition ModeAuth :: string where "ModeAuth = ''auth''"
definition ModeSearch :: string where "ModeSearch = ''search''"
definition ModeBoth :: string where "ModeBoth = ''both''"

record User =
  Username :: string
  Password :: string
  ExpectedOK :: bool

text \<open>
  \<open>metrics.Metrics\<close>: three \<open>atomic.Int64\<close> counters, which wrap around, and the start
  time in nanoseconds.
\<close>

record Metrics =
  Attempts :: "64 word"
  Success :: "64 word"
  Fail :: "64 word"
  Start :: int

definition metrics_New :: "int \<Rightarrow> Metrics" where
  "metrics_New now = \<lparr>Attempts = 0, Success = 0, Fail = 0, Start = now\<rparr>"

text \<open>
  \<open>Snapshot\<close> loads the three counters one after the other, each load atomic, with no
  lock around them: other goroutines may run between two loads. \<open>mt1\<close>, \<open>mt2\<close> and
  \<open>mt3\<close> are the \<open>Metrics\<close> at the moments of the loads of \<open>Attempts\<close>, \<open>Success\<close> and
  \<open>Fail\<close>; \<open>now\<close> is the clock read by \<open>time.Since\<close> after the last load.
\<close>

definition Snapshot ::
  "int \<Rightarrow> Metrics \<Rightarrow> Metrics \<Rightarrow> Metrics \<Rightarrow> 64 word \<times> 64 word \<times> 64 word \<times> int" where
  "Snapshot now mt1 mt2 mt3 = (Attempts mt1, Success mt2, Fail mt3, now - Start mt3)"

subsection \<open>The runner\<close>

text \<open>
  An \<open>error\<close> is represented by its text; a result \<open>(v, err)\<close> is \<open>Inl err\<close> or \<open>Inr v\<close>.
  \<open>ldapclient.Client\<close> is an interface: the answers its methods give during one
  iteration are inputs of the model.
\<close>

type_synonym error = string

record Client =
  LookupDN :: "string \<Rightarrow> error + string"
  UserBind :: "string \<Rightarrow> string \<Rightarrow> error option"
  UserSearch :: "string \<Rightarrow> string \<Rightarrow> string \<Rightarrow> error + int"

text \<open>The \<open>fakeClient\<close> of the package's tests.\<close>

definition fakeClient :: "error option \<Rightarrow> error option \<Rightarrow> Client" where
  "fakeClient bindErr searchErr =
     \<lparr>LookupDN = (\<lambda>username. Inr (''dn-'' @ username)),
      UserBind = (\<lambda>dn password. bindErr),
      UserSearch = (\<lambda>dn password flt.
                      case searchErr of None \<Rightarrow> Inr 1 | Some err \<Rightarrow> Inl err)\<rparr>"

text \<open>
  The \<open>Runner\<close> struct is split in two: the parts that stay fixed (\<open>cfg\<close>, \<open>users\<close>) and
  the objects its fields \<open>m\<close> and \<open>flog\<close> point to, which change and are shared with the
  reporter; these form the \<open>World\<close>, together with the standard output and a flag that
  tells whether a goroutine has panicked.
\<close>

record Runner =
  cfg :: Config
  users :: "User list"

record World =
  r_m :: Metrics
  r_flog :: "Logger option"
  stdout :: "string list"
  panicked :: bool

text \<open>\<open>prepareFilter\<close>.\<close>

definition prepareFilter :: "(string \<Rightarrow> string \<Rightarrow> string) \<Rightarrow> Runner \<Rightarrow> string \<Rightarrow> string" where
  "prepareFilter lib r username =
     (let f = Filter (cfg r)
      in if Contains f ''%s'' then Sprintf lib f username else f)"

text \<open>
  The substitution as the specification words it, for comparison: every occurrence of
  the two characters \<open>%s\<close> is replaced, from left to right.
\<close>

fun replace_every_placeholder :: "string \<Rightarrow> string \<Rightarrow> string" where
  "replace_every_placeholder [] u = []"
| "replace_every_placeholder [c] u = [c]"
| "replace_every_placeholder (c # d # cs) u =
     (if c = CHR ''%'' \<and> d = CHR ''s'' then u @ replace_every_placeholder cs u
      else c # replace_every_placeholder (d # cs) u)"

text \<open>
  The effects of \<open>runOnce\<close> on the shared objects, one constructor for each statement
  that has one. Between any two of them other goroutines (workers, the reporter) may run.
\<close>

datatype step =
    Attempts_Add
  | Success_Add
  | Fail_Add
  | Flog_Log Record
  | Println string
  | Panic

text \<open>
  \<open>runOnce\<close> as the list of its effects, in program order. \<open>rnd\<close> is the random source
  behind \<open>rand.Intn\<close>, which panics for an empty list of users, and \<open>now\<close> the clock.
\<close>

definition fail_step :: "int \<Rightarrow> string \<Rightarrow> string \<Rightarrow> string \<Rightarrow> string \<Rightarrow> error \<Rightarrow> step list" where
  "fail_step now op uname dn flt err =
     [Fail_Add,
      Flog_Log \<lparr>rec_Timestamp = now, rec_Operation = op, rec_Username = uname,
                rec_DN = dn, rec_Filter = flt, rec_Error = err\<rparr>]"

definition runOnce ::
  "(string \<Rightarrow> string \<Rightarrow> string) \<Rightarrow> Runner \<Rightarrow> Client \<Rightarrow> nat \<Rightarrow> int \<Rightarrow> step list" where
  "runOnce lib r cl rnd now =
     Attempts_Add #
     (if length (users r) = 0 then [Panic]
      else let user = users r ! (rnd mod length (users r))
           in case LookupDN cl (Username user) of
                Inl err \<Rightarrow> fail_step now ''lookup'' (Username user) [] [] err
              | Inr dn \<Rightarrow>
                  if Mode (cfg r) = ModeAuth then
                    (case UserBind cl dn (Password user) of
                       Some err \<Rightarrow> fail_step now ''bind'' (Username user) dn [] err
                     | None \<Rightarrow> [Success_Add])
                  else if Mode (cfg r) = ModeSearch then
                    (let flt = prepareFilter lib r (Username user)
                     in case UserSearch cl dn (Password user) flt of
                          Inl err \<Rightarrow> fail_step now ''search'' (Username user) dn flt err
                        | Inr n \<Rightarrow> [Success_Add])
                  else if Mode (cfg r) = ModeBoth then
                    (case UserBind cl dn (Password user) of
                       Some err \<Rightarrow> fail_step now ''bind'' (Username user) dn [] err
                     | None \<Rightarrow>
                         (let flt = prepareFilter lib r (Username user)
                          in case UserSearch cl dn (Password user) flt of
                               Inl err \<Rightarrow>
                                 fail_step now ''search'' (Username user) dn flt err
                             | Inr n \<Rightarrow> [Success_Add]))
                  else [Fail_Add, Println ''unknown mode''])"

text \<open>What one effect does to the shared objects.\<close>

fun apply_step :: "World \<Rightarrow> step \<Rightarrow> World" where
  "apply_step w Attempts_Add = w\<lparr>r_m := (r_m w)\<lparr>Attempts := Attempts (r_m w) + 1\<rparr>\<rparr>"
| "apply_step w Success_Add = w\<lparr>r_m := (r_m w)\<lparr>Success := Success (r_m w) + 1\<rparr>\<rparr>"
| "apply_step w Fail_Add = w\<lparr>r_m := (r_m w)\<lparr>Fail := Fail (r_m w) + 1\<rparr>\<rparr>"
| "apply_step w (Flog_Log rc) =
     (if r_flog w \<noteq> None then w\<lparr>r_flog := Log (r_flog w) rc\<rparr> else w)"
| "apply_step w (Println s) = w\<lparr>stdout := stdout w @ [s]\<rparr>"
| "apply_step w Panic = w\<lparr>panicked := True\<rparr>"

text \<open>
  A run: \<open>Run\<close> starts \<open>Concurrency\<close> workers, each of which calls \<open>runOnce\<close> again and
  again. A worker is the list of effects of its current call that are still to come
  (empty between two calls). \<open>Begin k\<close> lets worker \<open>k\<close> enter \<open>runOnce\<close> with the given
  inputs, \<open>Advance k\<close> lets it perform its next effect. An event that does not apply
  (no such worker, a call still under way, nothing to do) changes nothing.
\<close>

datatype run_event = Begin nat Client nat int | Advance nat

fun do_event ::
  "(string \<Rightarrow> string \<Rightarrow> string) \<Rightarrow> Runner \<Rightarrow> World \<times> step list list \<Rightarrow> run_event \<Rightarrow>
     World \<times> step list list" where
  "do_event lib r (w, ws) (Begin k cl rnd now) =
     (if k < length ws \<and> ws ! k = [] then (w, ws[k := runOnce lib r cl rnd now]) else (w, ws))"
| "do_event lib r (w, ws) (Advance k) =
     (if k < length ws then
        (case ws ! k of [] \<Rightarrow> (w, ws) | s # ss \<Rightarrow> (apply_step w s, ws[k := ss]))
      else (w, ws))"

definition Run ::
  "(string \<Rightarrow> string \<Rightarrow> string) \<Rightarrow> Runner \<Rightarrow> World \<Rightarrow> run_event list \<Rightarrow> World \<times> step list list" where
  "Run lib r w evs =
     foldl (do_event lib r) (w, replicate (nat (Concurrency (cfg r))) []) evs"

text \<open>
  A call of \<open>Snapshot\<close> during a run that has reached the state \<open>s\<close>: the workers
  perform \<open>evs1\<close> between the first and the second load and \<open>evs2\<close> between the second
  and the third. The result is the snapshot and the state after the last load.
\<close>

definition Snapshot_during ::
  "(string \<Rightarrow> string \<Rightarrow> string) \<Rightarrow> Runner \<Rightarrow> int \<Rightarrow> World \<times> step list list \<Rightarrow>
     run_event list \<Rightarrow> run_event list \<Rightarrow>
     (64 word \<times> 64 word \<times> 64 word \<times> int) \<times> (World \<times> step list list)" where
  "Snapshot_during lib r now s evs1 evs2 =
     (let s2 = foldl (do_event lib r) s evs1;
          s3 = foldl (do_event lib r) s2 evs2
      in (Snapshot now (r_m (fst s)) (r_m (fst s2)) (r_m (fst s3)), s3))"

text \<open>The calls of \<open>runOnce\<close> that have counted their attempt but not yet their outcome.\<close>

definition counted :: "step list \<Rightarrow> bool" where
  "counted ss \<longleftrightarrow> Attempts_Add \<notin> set ss \<and> (Success_Add \<in> set ss \<or> Fail_Add \<in> set ss)"

definition in_flight :: "step list list \<Rightarrow> nat" where
  "in_flight ws = length (filter counted ws)"

text \<open>
  For the proofs: the shapes the remaining effects of a call can have. \<open>quiet\<close>: no
  counter is touched any more; \<open>owing\<close>: the outcome is about to be counted;
  a call that has not started to run begins with \<open>Attempts_Add\<close> and then owes its outcome.
\<close>

definition quiet :: "step list \<Rightarrow> bool" where
  "quiet ss \<longleftrightarrow> Attempts_Add \<notin> set ss \<and> Success_Add \<notin> set ss \<and> Fail_Add \<notin> set ss"

definition owing :: "step list \<Rightarrow> bool" where
  "owing ss \<longleftrightarrow> (\<exists>t. (ss = Success_Add # t \<or> ss = Fail_Add # t) \<and> quiet t)"

definition well_formed :: "step list \<Rightarrow> bool" where
  "well_formed ss \<longleftrightarrow> quiet ss \<or> owing ss \<or> (\<exists>t. ss = Attempts_Add # t \<and> owing t)"

definition balanced :: "World \<times> step list list \<Rightarrow> bool" where
  "balanced s \<longleftrightarrow>
     (\<forall>ss \<in> set (snd s). well_formed ss) \<and>
     Attempts (r_m (fst s)) = Success (r_m (fst s)) + Fail (r_m (fst s)) + of_nat (in_flight (snd s))"

section \<open>Package ldapclient: the pool of user connections\<close>

text \<open>
  A \<open>*ldap.Conn\<close> is the identity of a connection, \<open>None\<close> being \<open>nil\<close>. Every dial that
  succeeds yields a connection that did not exist before: connections are numbered in
  the order in which they are dialed, \<open>next_conn\<close> being the next number.
  \<open>pool\<close> is the content of the buffered channel, oldest first, \<open>pool_cap\<close> the capacity
  it was made with, \<open>closed_conns\<close> the connections on which \<open>Close\<close> has been called.
  The model covers the client while it is in use, before its own \<open>Close\<close>.
\<close>

type_synonym ldap_Conn = nat

record client =
  conn :: "ldap_Conn option"
  pool :: "ldap_Conn list"
  pool_cap :: int
  closed_conns :: "ldap_Conn set"
  next_conn :: ldap_Conn

text \<open>
  \<open>ldapclient.New\<close>; \<open>lookup_err\<close> is the result of \<open>connectLookup\<close>. The product is
  a product of two \<open>int\<close>s and wraps around.
\<close>

definition ldapclient_New :: "error option \<Rightarrow> Config \<Rightarrow> error + client" where
  "ldapclient_New lookup_err cf =
     (case lookup_err of
        Some err \<Rightarrow> Inl err
      | None \<Rightarrow>
          (let size = wrap_int64 (Concurrency cf * Connections cf);
               size' = (if size < 1 then 1 else size)
           in Inr \<lparr>conn = Some 0, pool = [], pool_cap = size',
                   closed_conns = {}, next_conn = 1\<rparr>))"

text \<open>\<open>getConn\<close>; \<open>dial_ok\<close> tells whether \<open>dialUser\<close> would succeed.\<close>

definition getConn :: "bool \<Rightarrow> client \<Rightarrow> ldap_Conn option \<times> client" where
  "getConn dial_ok c =
     (case pool c of
        l # q \<Rightarrow> (Some l, c\<lparr>pool := q\<rparr>)
      | [] \<Rightarrow> (if dial_ok then (Some (next_conn c), c\<lparr>next_conn := Suc (next_conn c)\<rparr>)
               else (None, c)))"

text \<open>\<open>putConn\<close>.\<close>

definition putConn :: "ldap_Conn option \<Rightarrow> error option \<Rightarrow> client \<Rightarrow> client" where
  "putConn lo err c =
     (case lo of
        None \<Rightarrow> c
      | Some l \<Rightarrow>
          if err \<noteq> None then c\<lparr>closed_conns := insert l (closed_conns c)\<rparr>
          else if int (length (pool c)) < pool_cap c then c\<lparr>pool := pool c @ [l]\<rparr>
          else c\<lparr>closed_conns := insert l (closed_conns c)\<rparr>)"

text \<open>
  \<open>UserBind\<close> and \<open>UserSearch\<close> of the pooled client; the results of the dial and of the
  operations on the wire are inputs. Each borrows one connection and gives it back once.
\<close>

definition client_UserBind :: "bool \<Rightarrow> error option \<Rightarrow> client \<Rightarrow> error option \<times> client" where
  "client_UserBind dial_ok bind_err c =
     (case getConn dial_ok c of
        (None, c1) \<Rightarrow> (Some ''no connection available'', c1)
      | (Some l, c1) \<Rightarrow> (bind_err, putConn (Some l) bind_err c1))"

definition client_UserSearch ::
  "bool \<Rightarrow> error option \<Rightarrow> error + int \<Rightarrow> client \<Rightarrow> (error + int) \<times> client" where
  "client_UserSearch dial_ok bind_err search_res c =
     (case getConn dial_ok c of
        (None, c1) \<Rightarrow> (Inl ''no connection available'', c1)
      | (Some l, c1) \<Rightarrow>
          (case bind_err of
             Some err \<Rightarrow> (Inl err, putConn (Some l) (Some err) c1)
           | None \<Rightarrow>
               (case search_res of
                  Inl err \<Rightarrow> (Inl err, putConn (Some l) (Some err) c1)
                | Inr n \<Rightarrow> (Inr n, putConn (Some l) None c1))))"

text \<open>
  Workers use the pool concurrently: between the \<open>getConn\<close> and the \<open>putConn\<close> of one
  worker, others may borrow and release. \<open>Acquire k\<close> is the \<open>getConn\<close> of worker \<open>k\<close>,
  \<open>Release k err\<close> its \<open>putConn\<close> with the error of its operation. \<open>held\<close> maps a worker
  to the connection it has borrowed. As in \<open>UserBind\<close> and \<open>UserSearch\<close>, a worker
  acquires only when it holds nothing and releases what it holds.
\<close>

datatype pool_event = Acquire nat bool | Release nat "error option"

record pool_state =
  cl :: client
  held :: "nat \<Rightarrow> ldap_Conn option"
  acquired :: "ldap_Conn list"

fun pool_step :: "pool_state \<Rightarrow> pool_event \<Rightarrow> pool_state" where
  "pool_step s (Acquire k dial_ok) =
     (if held s k \<noteq> None then s
      else case getConn dial_ok (cl s) of
             (None, c') \<Rightarrow> s\<lparr>cl := c'\<rparr>
           | (Some l, c') \<Rightarrow> s\<lparr>cl := c', held := (held s)(k := Some l),
                                  acquired := acquired s @ [l]\<rparr>)"
| "pool_step s (Release k err) =
     (case held s k of
        None \<Rightarrow> s
      | Some l \<Rightarrow> s\<lparr>cl := putConn (Some l) err (cl s), held := (held s)(k := None)\<rparr>)"

definition pool_run :: "pool_state \<Rightarrow> pool_event list \<Rightarrow> pool_state" where
  "pool_run s evs = foldl pool_step s evs"

definition pool_start :: "client \<Rightarrow> pool_state" where
  "pool_start c = \<lparr>cl = c, held = (\<lambda>k. None), acquired = []\<rparr>"

text \<open>A sequence of releases, each with the handle and the error passed to \<open>putConn\<close>.\<close>

definition release_all :: "client \<Rightarrow> (ldap_Conn option \<times> error option) list \<Rightarrow> client" where
  "release_all c rs = foldl (\<lambda>c (l, err). putConn l err c) c rs"

text \<open>
  For the proofs: what holds of the pool in every reachable state. Connections in the
  pool, borrowed ones and closed ones have all been dialed; a borrowed connection is
  neither closed nor in the pool nor borrowed twice; no closed connection is in the pool.
\<close>

definition pool_inv :: "pool_state \<Rightarrow> bool" where
  "pool_inv s \<longleftrightarrow>
     (\<forall>h \<in> set (pool (cl s)). h < next_conn (cl s)) \<and>
     (\<forall>h \<in> closed_conns (cl s). h < next_conn (cl s)) \<and>
     (\<forall>k h. held s k = Some h \<longrightarrow> h < next_conn (cl s) \<and> h \<notin> closed_conns (cl s) \<and> h \<notin> set (pool (cl s))) \<and>
     (\<forall>k k' h. held s k = Some h \<and> held s k' = Some h \<longrightarrow> k = k') \<and>
     closed_conns (cl s) \<inter> set (pool (cl s)) = {} \<and>
     distinct (pool (cl s)) \<and>
     int (length (pool (cl s))) \<le> pool_cap (cl s)"

section \<open>Properties of the failure logger\<close>

subsection \<open>Records on their way are kept in order\<close>

lemma persisted_append: "persisted (a @ b) = persisted a @ persisted b"
  by (induction a rule: persisted.induct) auto

lemma persisted_map_Row: "persisted (map Row b) = b"
  by (induction b) auto

lemma pending_flush: "pending (flush l) = pending l"
  by (simp add: pending_def flush_def persisted_append persisted_map_Row)

lemma flush_fields:
  "pc (flush l) = pc l" "ch (flush l) = ch l" "stopCh_closed (flush l) = stopCh_closed l"
  "buf (flush l) = []" "openable (flush l) = openable l" "ch_cap (flush l) = ch_cap l"
  "batch (flush l) = batch l"
  by (simp_all add: flush_def)

lemma receive_fields:
  "pc (receive r l) = pc l" "ch (receive r l) = ch l"
  "stopCh_closed (receive r l) = stopCh_closed l" "openable (receive r l) = openable l"
  "ch_cap (receive r l) = ch_cap l" "batch (receive r l) = batch l"
  by (simp_all add: receive_def Let_def flush_fields)

lemma pending_receive:
  "persisted (written (receive r l)) @ buf (receive r l) = persisted (written l) @ buf l @ [r]"
  by (simp add: receive_def Let_def flush_def persisted_append persisted_map_Row)

lemma run_step_pending:
  assumes "pc l = Serving \<or> pc l = Draining"
  shows "pending (run_step c l) = pending l"
proof (cases "ch l")
  case Nil
  then show ?thesis using assms
    by (auto simp: run_step_def pending_flush split: select_case.splits)
       (simp_all add: pending_def flush_def persisted_append persisted_map_Row)
next
  case (Cons r q)
  have "pending (receive r (l\<lparr>ch := q\<rparr>)) = pending l"
    using pending_receive[of r "l\<lparr>ch := q\<rparr>"] Cons
    by (simp add: pending_def receive_fields)
  then show ?thesis using assms Cons
    by (auto simp: run_step_def pending_flush split: select_case.splits)
       (simp_all add: pending_def)
qed

lemma run_step_ch_length: "length (ch (run_step c l)) \<le> length (ch l)"
  by (auto simp: run_step_def receive_fields flush_fields
           split: run_pc.splits select_case.splits list.splits)

lemma run_step_stop: "stopCh_closed (run_step c l) = stopCh_closed l"
  by (auto simp: run_step_def receive_fields flush_fields
           split: run_pc.splits select_case.splits list.splits)

subsection \<open>Shutdown after the file was opened\<close>

lemma wg_Wait_Finished: "pc l = Finished \<Longrightarrow> wg_Wait sched l = Some l"
  by (simp add: wg_Wait.simps)

lemma wg_Wait_Nil: "pc l \<noteq> Finished \<Longrightarrow> wg_Wait [] l = None"
  by (simp add: wg_Wait.simps)

lemma wg_Wait_Cons: "pc l \<noteq> Finished \<Longrightarrow> wg_Wait (c # cs) l = wg_Wait cs (run_step c l)"
  by (simp add: wg_Wait.simps)

lemma drain_finishes:
  "pc l = Draining \<Longrightarrow> length (ch l) < length sched \<Longrightarrow>
   \<exists>l'. wg_Wait sched l = Some l' \<and> settled l' \<and> pending l' = pending l"
proof (induction sched arbitrary: l)
  case Nil
  then show ?case by simp
next
  case (Cons c cs)
  show ?case
  proof (cases "ch l")
    case Nil
    then have "pc (run_step c l) = Finished" "ch (run_step c l) = []" "buf (run_step c l) = []"
      using Cons.prems by (simp_all add: run_step_def flush_fields)
    moreover have "pending (run_step c l) = pending l"
      using Cons.prems by (simp add: run_step_pending)
    ultimately show ?thesis using Cons.prems
      by (simp add: settled_def wg_Wait_Cons wg_Wait_Finished)
  next
    case (Cons r q)
    then have st: "pc (run_step c l) = Draining" "ch (run_step c l) = q"
      using Cons.prems by (simp_all add: run_step_def receive_fields)
    have "\<exists>l'. wg_Wait cs (run_step c l) = Some l' \<and> settled l' \<and>
               pending l' = pending (run_step c l)"
      using Cons.IH[of "run_step c l"] st Cons.prems(2) Cons by simp
    then show ?thesis using Cons.prems by (simp add: run_step_pending wg_Wait_Cons)
  qed
qed

text \<open>
  Once \<open>run\<close> has reached its \<open>select\<close> loop and \<open>stopCh\<close> is closed, it returns as soon
  as the \<open>stopCh\<close> case has been taken and the queue has been emptied, whatever it
  chose before; every record that was on its way is then in the file, in order.
\<close>

lemma stop_leads_to_finish:
  "pc l = Serving \<or> pc l = Draining \<Longrightarrow> stopCh_closed l \<Longrightarrow> length (ch l) < length post \<Longrightarrow>
   \<exists>l'. wg_Wait (pre @ CaseStop # post) l = Some l' \<and> settled l' \<and> pending l' = pending l"
proof (induction pre arbitrary: l)
  case Nil
  show ?case
  proof (cases "pc l = Serving")
    case True
    then have "pc (run_step CaseStop l) = Draining" "ch (run_step CaseStop l) = ch l"
      using Nil by (simp_all add: run_step_def)
    then have "\<exists>l'. wg_Wait post (run_step CaseStop l) = Some l' \<and> settled l' \<and>
                    pending l' = pending (run_step CaseStop l)"
      using drain_finishes[of "run_step CaseStop l" post] Nil by simp
    then show ?thesis using True Nil by (simp add: run_step_pending wg_Wait_Cons)
  next
    case False
    then have "pc l = Draining" using Nil by simp
    then show ?thesis using drain_finishes[of l "CaseStop # post"] Nil by simp
  qed
next
  case (Cons c pre)
  let ?l = "run_step c l"
  have pend: "pending ?l = pending l" using Cons.prems by (simp add: run_step_pending)
  have len: "length (ch ?l) < length post"
    using run_step_ch_length[of c l] Cons.prems by simp
  have stop: "stopCh_closed ?l" using Cons.prems by (simp add: run_step_stop)
  have nf: "pc l \<noteq> Finished" using Cons.prems by auto
  have "(pc ?l = Serving \<or> pc ?l = Draining) \<or> settled ?l"
    using Cons.prems(1)
    by (cases "ch l"; cases c)
       (auto simp: run_step_def receive_fields flush_fields settled_def)
  then consider "pc ?l = Serving \<or> pc ?l = Draining" | "settled ?l" by blast
  then show ?case
  proof cases
    case 1
    then show ?thesis using Cons.IH[of ?l] pend len stop nf by (simp add: wg_Wait_Cons)
  next
    case 2
    then show ?thesis using pend nf by (simp add: settled_def wg_Wait_Cons wg_Wait_Finished)
  qed
qed

lemma Close_returns_after_open:
  assumes "pc l = Serving" "\<not> stopCh_closed l" "length (ch l) < length post"
  shows "\<exists>l'. Close (pre @ CaseStop # post) (Some l) = Returns (Some l') \<and> pc l' = Finished \<and>
              persisted (written l') = persisted (written l) @ buf l @ ch l"
proof -
  let ?l = "l\<lparr>stopCh_closed := True\<rparr>"
  obtain l' where "wg_Wait (pre @ CaseStop # post) ?l = Some l'" "settled l'"
      "pending l' = pending ?l"
    using stop_leads_to_finish[of ?l post pre] assms by auto
  then show ?thesis using assms(2) by (auto simp: settled_def pending_def)
qed

subsection \<open>Shutdown after the file could not be opened\<close>

lemma discarding_never_finishes:
  "pc l = Discarding \<or> (pc l = Starting \<and> \<not> openable l) \<Longrightarrow> wg_Wait sched l = None"
proof (induction sched arbitrary: l)
  case Nil
  then show ?case by (auto simp: wg_Wait_Nil)
next
  case (Cons c cs)
  have "pc (run_step c l) = Discarding"
    using Cons.prems by (auto simp: run_step_def split: list.splits)
  then show ?case using Cons.IH[of "run_step c l"] Cons.prems by (auto simp: wg_Wait_Cons)
qed

text \<open>In that state nothing is ever written, and producers are served as before.\<close>

lemma discarding_writes_nothing:
  "pc l = Discarding \<Longrightarrow>
     pc (run_step c l) = Discarding \<and> written (run_step c l) = written l \<and>
     length (ch (run_step c l)) = length (ch l) - 1"
  by (auto simp: run_step_def split: list.splits)

text \<open>
  C3: the consumer of every started logger ends on the shutdown signal, so that
  \<open>Close\<close> returns. The code does not do this when the file could not be opened:
  \<open>fail.New("/nonexistent/fail.csv", 2)\<close> gives a logger on which \<open>Close\<close> does not
  return, whatever the consumer's schedule, because \<open>run\<close> stays in \<open>for range l.ch\<close>.
\<close>

theorem Close_hangs_after_failed_open:
  "fail_New False ''/nonexistent/fail.csv'' 2 =
     Returns (Some \<lparr>path = ''/nonexistent/fail.csv'', batch = 2, ch = [], ch_cap = 8,
                     stopCh_closed = False, openable = False, pc = Starting,
                     buf = [], written = []\<rparr>) \<and>
   (\<forall>sched. Close sched
      (Some \<lparr>path = ''/nonexistent/fail.csv'', batch = 2, ch = [], ch_cap = 8,
              stopCh_closed = False, openable = False, pc = Starting,
              buf = [], written = []\<rparr>) = Hangs)"
  by (simp add: fail_New_def wrap_int64_def discarding_never_finishes)

subsection \<open>Backpressure\<close>

lemma try_send_pending: "length (pending (try_send r l)) \<le> Suc (length (pending l))"
  by (simp add: try_send_def pending_def)

lemma run_step_pending_le: "length (pending (run_step c l)) \<le> length (pending l)"
proof (cases "pc l = Serving \<or> pc l = Draining")
  case True
  then show ?thesis by (simp add: run_step_pending)
next
  case False
  then show ?thesis
    by (cases "pc l"; cases "ch l") (auto simp: run_step_def pending_def persisted_append)
qed

lemma apply_event_pending_le:
  "length (pending (apply_event l e)) \<le> length (pending l) + log_calls [e]"
proof (cases e)
  case (Ev_Log r)
  then show ?thesis using try_send_pending[of r l] by simp
next
  case (Ev_run c)
  then show ?thesis using run_step_pending_le[of c l] by simp
next
  case Ev_close_stopCh
  then show ?thesis by (simp add: pending_def)
qed

lemma log_calls_append: "log_calls (a @ b) = log_calls a + log_calls b"
  by (induction a rule: log_calls.induct) auto

lemma exec_events_pending_le:
  "length (pending (exec_events l evs)) \<le> length (pending l) + log_calls evs"
proof (induction evs rule: rev_induct)
  case Nil
  then show ?case by (simp add: exec_events_def)
next
  case (snoc e evs)
  have "length (pending (exec_events l (evs @ [e])))
        \<le> length (pending (exec_events l evs)) + log_calls [e]"
    using apply_event_pending_le[of "exec_events l evs" e] by (simp add: exec_events_def)
  then show ?case using snoc by (simp add: log_calls_append)
qed

lemma fail_New_fields:
  assumes "fail_New can_open p b = Returns (Some l)"
  shows "batch l = (if b \<le> 0 then 256 else b)" "ch_cap l = wrap_int64 (batch l * 4)"
    "ch l = []" "buf l = []" "written l = []" "pc l = Starting" "openable l = can_open"
    "\<not> stopCh_closed l" "0 \<le> ch_cap l"
  using assms by (auto simp: fail_New_def Let_def split: if_splits)

lemma wrap_int64_id: "- (2 ^ 63) \<le> x \<Longrightarrow> x < 2 ^ 63 \<Longrightarrow> wrap_int64 x = x"
  by (simp add: wrap_int64_def)

text \<open>
  C8, as amended: the queue of a logger made by \<open>fail.New\<close> has capacity 4 times the
  batch size in use, which is the configured batch size when that is positive and 256
  otherwise (the product computed as Go computes it; it is the exact product for every
  batch size below \<open>2 ^ 61\<close>). \<open>Log\<close> returns at once: it queues the record when the queue
  has room and drops it when the queue is full. In every run of the logger the number
  of records in the file is at most the number of \<open>Log\<close> calls.
\<close>

theorem log_sheds_load:
  "fail_New can_open p b = Returns (Some l) \<Longrightarrow>
     batch l = (if b \<le> 0 then 256 else b) \<and>
     ch_cap l = wrap_int64 (batch l * 4) \<and>
     (batch l < 2 ^ 61 \<longrightarrow> ch_cap l = 4 * batch l) \<and>
     Log (Some l') r =
       Some (if int (length (ch l')) < ch_cap l' then l'\<lparr>ch := ch l' @ [r]\<rparr> else l') \<and>
     length (persisted (written (exec_events l evs))) \<le> log_calls evs"
proof -
  assume new: "fail_New can_open p b = Returns (Some l)"
  note f = fail_New_fields[OF new]
  have pos: "0 < batch l" using f(1) by (simp split: if_splits)
  have cap: "batch l < 2 ^ 61 \<longrightarrow> ch_cap l = 4 * batch l"
    using f(2) pos by (auto simp: wrap_int64_id)
  have "length (pending (exec_events l evs)) \<le> length (pending l) + log_calls evs"
    by (rule exec_events_pending_le)
  then have "length (persisted (written (exec_events l evs))) \<le> log_calls evs"
    using f by (simp add: pending_def)
  then show ?thesis using f(1,2) cap by (simp add: try_send_def)
qed

theorem log_sheds_load_witness:
  "fail_New True ''fail.csv'' 2 =
     Returns (Some \<lparr>path = ''fail.csv'', batch = 2, ch = [], ch_cap = 8,
                     stopCh_closed = False, openable = True, pc = Starting,
                     buf = [], written = []\<rparr>) \<and>
   (2 :: int) < 2 ^ 61 \<and>
   Log (Some \<lparr>path = ''fail.csv'', batch = 2,
               ch = replicate 8 \<lparr>rec_Timestamp = 0, rec_Operation = ''bind'',
                      rec_Username = ''u'', rec_DN = ''dn'', rec_Filter = [],
                      rec_Error = ''e''\<rparr>,
               ch_cap = 8, stopCh_closed = False, openable = True, pc = Serving,
               buf = [], written = [Header]\<rparr>)
       \<lparr>rec_Timestamp = 0, rec_Operation = ''bind'', rec_Username = ''u'', rec_DN = ''dn'',
        rec_Filter = [], rec_Error = ''e''\<rparr> =
     Some \<lparr>path = ''fail.csv'', batch = 2,
           ch = replicate 8 \<lparr>rec_Timestamp = 0, rec_Operation = ''bind'',
                  rec_Username = ''u'', rec_DN = ''dn'', rec_Filter = [],
                  rec_Error = ''e''\<rparr>,
           ch_cap = 8, stopCh_closed = False, openable = True, pc = Serving,
           buf = [], written = [Header]\<rparr> \<and>
   length (persisted (written (exec_events
       \<lparr>path = ''fail.csv'', batch = 2, ch = [], ch_cap = 8,
        stopCh_closed = False, openable = True, pc = Starting,
        buf = [], written = []\<rparr>
       [Ev_run CaseTick,
        Ev_Log \<lparr>rec_Timestamp = 0, rec_Operation = ''bind'', rec_Username = ''u'',
                rec_DN = ''dn'', rec_Filter = [], rec_Error = ''e''\<rparr>,
        Ev_run CaseRecv, Ev_run CaseTick]))) \<le> 1"
proof -
  have new: "fail_New True ''fail.csv'' 2 =
     Returns (Some \<lparr>path = ''fail.csv'', batch = 2, ch = [], ch_cap = 8,
                     stopCh_closed = False, openable = True, pc = Starting,
                     buf = [], written = []\<rparr>)"
    by (simp add: fail_New_def wrap_int64_def)
  show ?thesis
    using new log_sheds_load[OF new,
        of "\<lparr>path = ''fail.csv'', batch = 2,
             ch = replicate 8 \<lparr>rec_Timestamp = 0, rec_Operation = ''bind'',
                    rec_Username = ''u'', rec_DN = ''dn'', rec_Filter = [],
                    rec_Error = ''e''\<rparr>,
             ch_cap = 8, stopCh_closed = False, openable = True, pc = Serving,
             buf = [], written = [Header]\<rparr>"
           "\<lparr>rec_Timestamp = 0, rec_Operation = ''bind'', rec_Username = ''u'',
             rec_DN = ''dn'', rec_Filter = [], rec_Error = ''e''\<rparr>"
           "[Ev_run CaseTick,
             Ev_Log \<lparr>rec_Timestamp = 0, rec_Operation = ''bind'', rec_Username = ''u'',
                     rec_DN = ''dn'', rec_Filter = [], rec_Error = ''e''\<rparr>,
             Ev_run CaseRecv, Ev_run CaseTick]"]
    by simp
qed

theorem fail_New_zero_batch_counterexample:
  "fail_New True ''fail.csv'' 0 =
     Returns (Some \<lparr>path = ''fail.csv'', batch = 256, ch = [], ch_cap = 1024,
                     stopCh_closed = False, openable = True, pc = Starting,
                     buf = [], written = []\<rparr>) \<and>
   ch_cap \<lparr>path = ''fail.csv'', batch = 256, ch = [], ch_cap = 1024,
           stopCh_closed = False, openable = True, pc = Starting,
           buf = [], written = []\<rparr> \<noteq> 4 * 0"
  by (simp add: fail_New_def wrap_int64_def)

text \<open>
  C9: \<open>fail.New\<close> returns \<open>nil\<close> when the path is empty, whatever the batch size and the
  file system; \<open>Log\<close> on a \<open>nil\<close> logger returns at once and leaves \<open>nil\<close>; \<open>Close\<close>
  on a \<open>nil\<close> logger returns at once (it neither panics nor waits) and leaves \<open>nil\<close>.
\<close>

theorem nil_logger_is_safe:
  "fail_New can_open [] b = Returns None \<and> Log None r = None \<and> Close sched None = Returns None"
  by (simp add: fail_New_def)

section \<open>Properties of the runner\<close>

subsection \<open>prepareFilter\<close>

lemma doPrintf_plain:
  "CHR ''%'' \<notin> set s \<Longrightarrow> doPrintf s as = Some (s @ extraString as)"
  by (induction s) auto

lemma doPrintf_single:
  "CHR ''%'' \<notin> set pre \<Longrightarrow> CHR ''%'' \<notin> set post \<Longrightarrow>
   doPrintf (pre @ ''%s'' @ post) [u] = Some (pre @ u @ post)"
proof (induction pre)
  case Nil
  then show ?case
    by (simp add: doPrintf_plain outside_fragment_def verb_string_def extraString_def)
next
  case (Cons c pre)
  then show ?case by auto
qed

lemma Contains_placeholder: "Contains (pre @ CHR ''%'' # CHR ''s'' # post) ''%s''"
  by (induction pre) auto

lemma replace_plain:
  "CHR ''%'' \<notin> set s \<Longrightarrow> replace_every_placeholder s u = s"
  by (induction s u rule: replace_every_placeholder.induct) auto

lemma replace_single:
  "CHR ''%'' \<notin> set pre \<Longrightarrow> CHR ''%'' \<notin> set post \<Longrightarrow>
   replace_every_placeholder (pre @ ''%s'' @ post) u = pre @ u @ post"
proof (induction pre)
  case Nil
  then show ?case by (simp add: replace_plain)
next
  case (Cons c pre)
  then show ?case by (cases pre) auto
qed

text \<open>
  C2, as amended: a filter that does not contain \<open>%s\<close> is returned as it is; a filter
  that contains \<open>%s\<close> once and no other \<open>%\<close> is returned with that occurrence replaced
  by the username, which is then also the result of replacing every occurrence.
\<close>

theorem prepareFilter_one_placeholder:
  "(\<not> Contains (Filter (cfg r)) ''%s'' \<longrightarrow> prepareFilter lib r u = Filter (cfg r)) \<and>
   (Filter (cfg r) = pre @ ''%s'' @ post \<and> CHR ''%'' \<notin> set pre \<and> CHR ''%'' \<notin> set post \<longrightarrow>
      prepareFilter lib r u = pre @ u @ post \<and>
      prepareFilter lib r u = replace_every_placeholder (Filter (cfg r)) u)"
  using doPrintf_single[of pre post u] replace_single[of pre post u]
  by (auto simp: prepareFilter_def Sprintf_def Contains_placeholder)

theorem prepareFilter_one_placeholder_witness:
  "\<not> Contains ''(objectClass=person)'' ''%s'' \<and>
   prepareFilter lib_none
     \<lparr>cfg = \<lparr>Mode = ''search'', Filter = ''(objectClass=person)'', Concurrency = 1,
              Connections = 1\<rparr>, users = []\<rparr> ''ignored'' = ''(objectClass=person)'' \<and>
   ''(uid=%s)'' = ''(uid='' @ ''%s'' @ '')'' \<and>
   CHR ''%'' \<notin> set ''(uid='' \<and> CHR ''%'' \<notin> set '')'' \<and>
   prepareFilter lib_none
     \<lparr>cfg = \<lparr>Mode = ''search'', Filter = ''(uid=%s)'', Concurrency = 1,
              Connections = 1\<rparr>, users = []\<rparr> ''alice'' = ''(uid=alice)''"
  using prepareFilter_one_placeholder[where
      r = "\<lparr>cfg = \<lparr>Mode = ''search'', Filter = ''(objectClass=person)'', Concurrency = 1,
                   Connections = 1\<rparr>, users = []\<rparr>"
      and lib = lib_none and u = "''ignored''" and pre = "[]" and post = "[]"]
    prepareFilter_one_placeholder[where
      r = "\<lparr>cfg = \<lparr>Mode = ''search'', Filter = ''(uid=%s)'', Concurrency = 1,
                   Connections = 1\<rparr>, users = []\<rparr>"
      and pre = "''(uid=''" and post = "'')''" and lib = lib_none and u = "''alice''"]
  by simp

theorem prepareFilter_two_placeholders_counterexample:
  "prepareFilter lib_none
     \<lparr>cfg = \<lparr>Mode = ''search'', Filter = ''(uid=%s)(cn=%s)'', Concurrency = 1,
              Connections = 1\<rparr>, users = []\<rparr> ''alice'' = ''(uid=alice)(cn=%!s(MISSING))'' \<and>
   replace_every_placeholder ''(uid=%s)(cn=%s)'' ''alice'' = ''(uid=alice)(cn=alice)'' \<and>
   prepareFilter lib_none
     \<lparr>cfg = \<lparr>Mode = ''search'', Filter = ''(uid=%s)(cn=%s)'', Concurrency = 1,
              Connections = 1\<rparr>, users = []\<rparr> ''alice''
     \<noteq> replace_every_placeholder ''(uid=%s)(cn=%s)'' ''alice''"
  by (simp add: prepareFilter_def Sprintf_def outside_fragment_def verb_string_def
        extraString_def)

subsection \<open>The counters\<close>

lemma counted_quiet: "quiet ss \<Longrightarrow> \<not> counted ss"
  by (auto simp: quiet_def counted_def)

lemma counted_owing: "owing ss \<Longrightarrow> counted ss"
  by (auto simp: owing_def quiet_def counted_def)

lemma counted_fresh: "\<not> counted (Attempts_Add # t)"
  by (simp add: counted_def)

lemma owing_fail_step: "owing (fail_step now op un dn flt err)"
  by (simp add: owing_def fail_step_def quiet_def)

lemma runOnce_shape:
  "users r \<noteq> [] \<Longrightarrow> \<exists>t. runOnce lib r c rnd now = Attempts_Add # t \<and> owing t"
  by (auto simp: runOnce_def Let_def owing_fail_step split: sum.splits option.splits)
     (simp_all add: owing_def quiet_def)

lemma filter_update_length:
  "k < length xs \<Longrightarrow>
   length (filter P (xs[k := x])) + (if P (xs ! k) then 1 else 0)
     = length (filter P xs) + (if P x then 1 else 0)"
proof (induction xs arbitrary: k)
  case Nil
  then show ?case by simp
next
  case (Cons a xs)
  then show ?case by (cases k) auto
qed

lemma in_flight_update:
  "k < length ws \<Longrightarrow>
   in_flight (ws[k := x]) + (if counted (ws ! k) then 1 else 0)
     = in_flight ws + (if counted x then 1 else 0)"
  unfolding in_flight_def by (rule filter_update_length)

lemma set_update_wf:
  "\<forall>ss \<in> set ws. well_formed ss \<Longrightarrow> well_formed x \<Longrightarrow> \<forall>ss \<in> set (ws[k := x]). well_formed ss"
  using set_update_subset_insert[of ws k x] by auto

lemma balanced_Begin:
  assumes "users r \<noteq> []" "balanced (w, ws)"
  shows "balanced (do_event lib r (w, ws) (Begin k c rnd now))"
proof (cases "k < length ws \<and> ws ! k = []")
  case False
  then show ?thesis using assms by auto
next
  case True
  obtain t where t: "runOnce lib r c rnd now = Attempts_Add # t" "owing t"
    using runOnce_shape[OF assms(1)] by blast
  have "in_flight (ws[k := Attempts_Add # t]) = in_flight ws"
    using in_flight_update[of k ws "Attempts_Add # t"] True
    by (simp add: counted_fresh counted_def)
  moreover have "well_formed (Attempts_Add # t)" using t by (simp add: well_formed_def)
  ultimately show ?thesis using assms(2) True t set_update_wf[of ws "Attempts_Add # t" k]
    by (simp add: balanced_def)
qed

lemma balanced_Advance:
  assumes "balanced (w, ws)"
  shows "balanced (do_event lib r (w, ws) (Advance k))"
proof (cases "k < length ws")
  case False
  then show ?thesis using assms by simp
next
  case k: True
  show ?thesis
  proof (cases "ws ! k")
    case Nil
    then show ?thesis using assms k by simp
  next
    case (Cons s ss)
    have wf: "well_formed (s # ss)" using assms k Cons
      by (metis balanced_def nth_mem snd_conv)
    have upd: "in_flight (ws[k := ss]) + (if counted (s # ss) then 1 else 0)
               = in_flight ws + (if counted ss then 1 else 0)"
      using in_flight_update[of k ws ss] k Cons by simp
    have bal: "Attempts (r_m w) = Success (r_m w) + Fail (r_m w) + of_nat (in_flight ws)"
      using assms by (simp add: balanced_def)
    have allwf: "\<forall>x \<in> set ws. well_formed x" using assms by (simp add: balanced_def)
    consider (q) "quiet (s # ss)" | (o) "owing (s # ss)" | (f) "s = Attempts_Add" "owing ss"
      using wf by (auto simp: well_formed_def)
    then show ?thesis
    proof cases
      case q
      then have qs: "quiet ss" by (simp add: quiet_def)
      have "in_flight (ws[k := ss]) = in_flight ws"
        using upd counted_quiet[OF q] counted_quiet[OF qs] by simp
      moreover have "r_m (apply_step w s) = r_m w"
        using q by (cases s) (auto simp: quiet_def)
      moreover have "well_formed ss" using qs by (simp add: well_formed_def)
      ultimately show ?thesis using bal k Cons set_update_wf[OF allwf, of ss k]
        by (simp add: balanced_def)
    next
      case o
      then have qs: "quiet ss" by (auto simp: owing_def)
      have n: "in_flight ws = Suc (in_flight (ws[k := ss]))"
        using upd counted_owing[OF o] counted_quiet[OF qs] by simp
      have "Attempts (r_m (apply_step w s)) =
            Success (r_m (apply_step w s)) + Fail (r_m (apply_step w s))
              + of_nat (in_flight (ws[k := ss]))"
        using o bal n by (auto simp: owing_def)
      moreover have "well_formed ss" using qs by (simp add: well_formed_def)
      ultimately show ?thesis using k Cons set_update_wf[OF allwf, of ss k]
        by (simp add: balanced_def)
    next
      case f
      have n: "in_flight (ws[k := ss]) = Suc (in_flight ws)"
        using upd counted_owing[OF f(2)] f(1) by (simp add: counted_fresh)
      have "Attempts (r_m (apply_step w s)) =
            Success (r_m (apply_step w s)) + Fail (r_m (apply_step w s))
              + of_nat (in_flight (ws[k := ss]))"
        using f bal n by simp
      moreover have "well_formed ss" using f by (simp add: well_formed_def)
      ultimately show ?thesis using k Cons set_update_wf[OF allwf, of ss k]
        by (simp add: balanced_def)
    qed
  qed
qed

lemma balanced_do_event:
  "users r \<noteq> [] \<Longrightarrow> balanced s \<Longrightarrow> balanced (do_event lib r s e)"
proof (cases s)
  case (Pair w ws)
  assume a: "users r \<noteq> []" "balanced s"
  show ?thesis
  proof (cases e)
    case (Begin k c rnd now)
    then show ?thesis using balanced_Begin[of r w ws lib k c rnd now] a Pair by simp
  next
    case (Advance k)
    then show ?thesis using balanced_Advance[of w ws lib r k] a Pair by simp
  qed
qed

lemma balanced_foldl:
  "users r \<noteq> [] \<Longrightarrow> balanced s \<Longrightarrow> balanced (foldl (do_event lib r) s evs)"
  by (induction evs arbitrary: s) (simp_all add: balanced_do_event)

lemma in_flight_idle: "\<forall>ss \<in> set ws. ss = [] \<Longrightarrow> in_flight ws = 0"
  by (induction ws) (auto simp: in_flight_def counted_def)

lemma balanced_start:
  "Attempts (r_m w) = Success (r_m w) + Fail (r_m w) \<Longrightarrow> balanced (w, replicate n [])"
  by (simp add: balanced_def well_formed_def quiet_def in_flight_idle)

text \<open>
  C1, as amended: in every run over a non-empty list of users that starts with balanced
  counters, a snapshot whose loads of \<open>Success\<close> and \<open>Fail\<close> still find the values these
  counters had at the load of \<open>Attempts\<close> shows \<open>attempts = successes + failures + n\<close>,
  where \<open>n\<close> is the number of calls of \<open>runOnce\<close> that have counted their attempt and
  not yet their outcome; so it shows \<open>attempts = successes + failures\<close> when no call is
  under way. This is the case whenever no worker acts during the snapshot, in
  particular for every snapshot taken after the run, whatever the mode.
\<close>

theorem counters_balance_when_no_call_in_flight:
  assumes "users r \<noteq> []"
    and "Attempts (r_m w0) = Success (r_m w0) + Fail (r_m w0)"
    and "Run lib r w0 evs = (w, ws)"
    and "Snapshot_during lib r now (w, ws) evs1 evs2 = ((att, suc, fal, el), s')"
  shows "(suc = Success (r_m w) \<and> fal = Fail (r_m w) \<longrightarrow>
            att = suc + fal + of_nat (in_flight ws)) \<and>
         (suc = Success (r_m w) \<and> fal = Fail (r_m w) \<and> concat ws = [] \<longrightarrow>
            att = suc + fal) \<and>
         (evs1 = [] \<and> evs2 = [] \<longrightarrow> suc = Success (r_m w) \<and> fal = Fail (r_m w))"
proof -
  have "balanced (foldl (do_event lib r) (w0, replicate (nat (Concurrency (cfg r))) []) evs)"
    by (rule balanced_foldl[OF assms(1) balanced_start[OF assms(2)]])
  then have "balanced (w, ws)" using assms(3) by (simp add: Run_def)
  then have bal: "Attempts (r_m w) = Success (r_m w) + Fail (r_m w) + of_nat (in_flight ws)"
    by (simp add: balanced_def)
  have att: "att = Attempts (r_m w)"
    using assms(4) by (simp add: Snapshot_during_def Snapshot_def Let_def)
  have idle: "evs1 = [] \<and> evs2 = [] \<longrightarrow> suc = Success (r_m w) \<and> fal = Fail (r_m w)"
    using assms(4) by (auto simp: Snapshot_during_def Snapshot_def Let_def)
  have zero: "concat ws = [] \<longrightarrow> in_flight ws = 0"
    by (simp add: in_flight_idle)
  show ?thesis using bal att idle zero by auto
qed

theorem counters_balance_when_no_call_in_flight_witness:
  "users \<lparr>cfg = \<lparr>Mode = ''bogus'', Filter = ''(objectClass=person)'', Concurrency = 1,
              Connections = 1\<rparr>,
      users = [\<lparr>Username = ''bob'', Password = ''pw'', ExpectedOK = True\<rparr>]\<rparr> \<noteq> [] \<and>
   Attempts (r_m \<lparr>r_m = metrics_New 0, r_flog = None, stdout = [], panicked = False\<rparr>) =
     Success (r_m \<lparr>r_m = metrics_New 0, r_flog = None, stdout = [], panicked = False\<rparr>) +
     Fail (r_m \<lparr>r_m = metrics_New 0, r_flog = None, stdout = [], panicked = False\<rparr>) \<and>
   Run lib_none
     \<lparr>cfg = \<lparr>Mode = ''bogus'', Filter = ''(objectClass=person)'', Concurrency = 1,
              Connections = 1\<rparr>,
      users = [\<lparr>Username = ''bob'', Password = ''pw'', ExpectedOK = True\<rparr>]\<rparr>
     \<lparr>r_m = metrics_New 0, r_flog = None, stdout = [], panicked = False\<rparr>
     [Begin 0 (fakeClient None None) 0 0, Advance 0, Advance 0, Advance 0] =
     (\<lparr>r_m = \<lparr>Attempts = 1, Success = 0, Fail = 1, Start = 0\<rparr>, r_flog = None,
        stdout = [''unknown mode''], panicked = False\<rparr>, [[]]) \<and>
   Snapshot_during lib_none
     \<lparr>cfg = \<lparr>Mode = ''bogus'', Filter = ''(objectClass=person)'', Concurrency = 1,
              Connections = 1\<rparr>,
      users = [\<lparr>Username = ''bob'', Password = ''pw'', ExpectedOK = True\<rparr>]\<rparr>
     7 (\<lparr>r_m = \<lparr>Attempts = 1, Success = 0, Fail = 1, Start = 0\<rparr>, r_flog = None,
        stdout = [''unknown mode''], panicked = False\<rparr>, [[]]) [] [] =
     ((1, 0, 1, 7),
      (\<lparr>r_m = \<lparr>Attempts = 1, Success = 0, Fail = 1, Start = 0\<rparr>, r_flog = None,
        stdout = [''unknown mode''], panicked = False\<rparr>, [[]])) \<and>
   (0 :: 64 word) = Success (r_m \<lparr>r_m = \<lparr>Attempts = 1, Success = 0, Fail = 1, Start = 0\<rparr>, r_flog = None,
        stdout = [''unknown mode''], panicked = False\<rparr>) \<and>
   (1 :: 64 word) = Fail (r_m \<lparr>r_m = \<lparr>Attempts = 1, Success = 0, Fail = 1, Start = 0\<rparr>, r_flog = None,
        stdout = [''unknown mode''], panicked = False\<rparr>) \<and>
   concat [[] :: step list] = [] \<and>
   ([] :: run_event list) = [] \<and>
   (1 :: 64 word) = 0 + 1 + of_nat (in_flight [[]]) \<and>
   (1 :: 64 word) = 0 + 1"
proof -
  have u: "users \<lparr>cfg = \<lparr>Mode = ''bogus'', Filter = ''(objectClass=person)'', Concurrency = 1,
              Connections = 1\<rparr>,
      users = [\<lparr>Username = ''bob'', Password = ''pw'', ExpectedOK = True\<rparr>]\<rparr> \<noteq> []"
    by simp
  have b: "Attempts (r_m \<lparr>r_m = metrics_New 0, r_flog = None, stdout = [], panicked = False\<rparr>) =
     Success (r_m \<lparr>r_m = metrics_New 0, r_flog = None, stdout = [], panicked = False\<rparr>) +
     Fail (r_m \<lparr>r_m = metrics_New 0, r_flog = None, stdout = [], panicked = False\<rparr>)"
    by (simp add: metrics_New_def)
  have run: "Run lib_none
     \<lparr>cfg = \<lparr>Mode = ''bogus'', Filter = ''(objectClass=person)'', Concurrency = 1,
              Connections = 1\<rparr>,
      users = [\<lparr>Username = ''bob'', Password = ''pw'', ExpectedOK = True\<rparr>]\<rparr>
     \<lparr>r_m = metrics_New 0, r_flog = None, stdout = [], panicked = False\<rparr>
     [Begin 0 (fakeClient None None) 0 0, Advance 0, Advance 0, Advance 0] =
     (\<lparr>r_m = \<lparr>Attempts = 1, Success = 0, Fail = 1, Start = 0\<rparr>, r_flog = None,
        stdout = [''unknown mode''], panicked = False\<rparr>, [[]])"
    by (simp add: Run_def runOnce_def fakeClient_def metrics_New_def ModeAuth_def
          ModeSearch_def ModeBoth_def)
  have snap: "Snapshot_during lib_none
     \<lparr>cfg = \<lparr>Mode = ''bogus'', Filter = ''(objectClass=person)'', Concurrency = 1,
              Connections = 1\<rparr>,
      users = [\<lparr>Username = ''bob'', Password = ''pw'', ExpectedOK = True\<rparr>]\<rparr>
     7 (\<lparr>r_m = \<lparr>Attempts = 1, Success = 0, Fail = 1, Start = 0\<rparr>, r_flog = None,
        stdout = [''unknown mode''], panicked = False\<rparr>, [[]]) [] [] =
     ((1, 0, 1, 7),
      (\<lparr>r_m = \<lparr>Attempts = 1, Success = 0, Fail = 1, Start = 0\<rparr>, r_flog = None,
        stdout = [''unknown mode''], panicked = False\<rparr>, [[]]))"
    by (simp add: Snapshot_during_def Snapshot_def)
  have s: "(0 :: 64 word) = Success (r_m \<lparr>r_m = \<lparr>Attempts = 1, Success = 0, Fail = 1, Start = 0\<rparr>, r_flog = None,
        stdout = [''unknown mode''], panicked = False\<rparr>)" by simp
  have f: "(1 :: 64 word) = Fail (r_m \<lparr>r_m = \<lparr>Attempts = 1, Success = 0, Fail = 1, Start = 0\<rparr>, r_flog = None,
        stdout = [''unknown mode''], panicked = False\<rparr>)" by simp
  have c: "concat [[] :: step list] = []" by simp
  have e: "([] :: run_event list) = []" by simp
  note t = counters_balance_when_no_call_in_flight[OF u b run snap]
  have t1: "(1 :: 64 word) = 0 + 1 + of_nat (in_flight [[]])"
    using conjunct1[OF t] s f by blast
  have t2: "(1 :: 64 word) = 0 + 1"
    using conjunct1[OF conjunct2[OF t]] s f c by blast
  show ?thesis by (intro conjI u b run snap s f c e t1 t2)
qed

theorem attempt_counted_before_outcome_counterexample:
  "Run lib_none
     \<lparr>cfg = \<lparr>Mode = ''auth'', Filter = ''(objectClass=person)'', Concurrency = 1,
              Connections = 1\<rparr>,
      users = [\<lparr>Username = ''bob'', Password = ''pw'', ExpectedOK = True\<rparr>]\<rparr>
     \<lparr>r_m = metrics_New 0, r_flog = None, stdout = [], panicked = False\<rparr>
     [Begin 0 (fakeClient None None) 0 0, Advance 0] =
     (\<lparr>r_m = \<lparr>Attempts = 1, Success = 0, Fail = 0, Start = 0\<rparr>, r_flog = None,
        stdout = [], panicked = False\<rparr>, [[Success_Add]]) \<and>
   Snapshot_during lib_none
     \<lparr>cfg = \<lparr>Mode = ''auth'', Filter = ''(objectClass=person)'', Concurrency = 1,
              Connections = 1\<rparr>,
      users = [\<lparr>Username = ''bob'', Password = ''pw'', ExpectedOK = True\<rparr>]\<rparr>
     7 (\<lparr>r_m = \<lparr>Attempts = 1, Success = 0, Fail = 0, Start = 0\<rparr>, r_flog = None,
        stdout = [], panicked = False\<rparr>, [[Success_Add]]) [] [] =
     ((1, 0, 0, 7),
      (\<lparr>r_m = \<lparr>Attempts = 1, Success = 0, Fail = 0, Start = 0\<rparr>, r_flog = None,
        stdout = [], panicked = False\<rparr>, [[Success_Add]])) \<and>
   (1 :: 64 word) \<noteq> 0 + 0 \<and>
   Run lib_none
     \<lparr>cfg = \<lparr>Mode = ''auth'', Filter = ''(objectClass=person)'', Concurrency = 1,
              Connections = 1\<rparr>,
      users = [\<lparr>Username = ''bob'', Password = ''pw'', ExpectedOK = True\<rparr>]\<rparr>
     \<lparr>r_m = metrics_New 0, r_flog = None, stdout = [], panicked = False\<rparr> [] =
     (\<lparr>r_m = \<lparr>Attempts = 0, Success = 0, Fail = 0, Start = 0\<rparr>, r_flog = None,
        stdout = [], panicked = False\<rparr>, [[]]) \<and>
   Snapshot_during lib_none
     \<lparr>cfg = \<lparr>Mode = ''auth'', Filter = ''(objectClass=person)'', Concurrency = 1,
              Connections = 1\<rparr>,
      users = [\<lparr>Username = ''bob'', Password = ''pw'', ExpectedOK = True\<rparr>]\<rparr>
     7 (\<lparr>r_m = \<lparr>Attempts = 0, Success = 0, Fail = 0, Start = 0\<rparr>, r_flog = None,
        stdout = [], panicked = False\<rparr>, [[]])
     [Begin 0 (fakeClient None None) 0 0, Advance 0, Advance 0] [] =
     ((0, 1, 0, 7),
      (\<lparr>r_m = \<lparr>Attempts = 1, Success = 1, Fail = 0, Start = 0\<rparr>, r_flog = None,
        stdout = [], panicked = False\<rparr>, [[]])) \<and>
   (0 :: 64 word) \<noteq> 1 + 0"
  by (simp add: Run_def Snapshot_during_def Snapshot_def runOnce_def fakeClient_def
        metrics_New_def ModeAuth_def)


section \<open>Properties of the latency recorder\<close>


text \<open>
  C10: \<open>percentile\<close> of an empty slice is the zero duration for every \<open>p\<close> (a NaN and
  the infinities included); \<open>TotalSnapshot\<close> of a recorder in which nothing was recorded
  returns the all-zero statistics; and \<open>TotalSnapshot\<close> never divides by zero.
\<close>

theorem empty_inputs_give_zero:
  "percentile impl [] p = 0 \<and>
   TotalSnapshot impl (NewLatencyRecorder capacity) = Returns zero_LatencyStats \<and>
   TotalSnapshot impl l \<noteq> Panics"
  by (auto simp: percentile_def TotalSnapshot_def NewLatencyRecorder_def zero_LatencyStats_def
        go_div_def Let_def split: option.splits)







section \<open>Properties of the connection pool\<close>

lemma getConn_cases:
  "getConn dial_ok c = (r, c') \<Longrightarrow>
     (\<exists>q. pool c = the r # q \<and> r \<noteq> None \<and> c' = c\<lparr>pool := q\<rparr>) \<or>
     (pool c = [] \<and> dial_ok \<and> r = Some (next_conn c) \<and> c' = c\<lparr>next_conn := Suc (next_conn c)\<rparr>) \<or>
     (pool c = [] \<and> \<not> dial_ok \<and> r = None \<and> c' = c)"
  by (auto simp: getConn_def split: list.splits if_splits)

lemma pool_inv_Acquire: "pool_inv s \<Longrightarrow> pool_inv (pool_step s (Acquire k d))"
proof -
  assume inv: "pool_inv s"
  show ?thesis
  proof (cases "held s k \<noteq> None")
    case True
    then show ?thesis using inv by simp
  next
    case False
    obtain r c' where g: "getConn d (cl s) = (r, c')" by (cases "getConn d (cl s)")
    from getConn_cases[OF g] show ?thesis
    proof (elim disjE exE conjE)
      fix q assume a: "pool (cl s) = the r # q" "r \<noteq> None" "c' = (cl s)\<lparr>pool := q\<rparr>"
      then obtain h where h: "r = Some h" by auto
      show ?thesis using inv False g a h
        unfolding pool_inv_def by (auto simp: less_Suc_eq)
    next
      assume a: "pool (cl s) = []" "d" "r = Some (next_conn (cl s))"
        "c' = (cl s)\<lparr>next_conn := Suc (next_conn (cl s))\<rparr>"
      show ?thesis using inv False g a
        unfolding pool_inv_def by (auto simp: less_Suc_eq) 
    next
      assume a: "pool (cl s) = []" "\<not> d" "r = None" "c' = cl s"
      show ?thesis using inv False g a unfolding pool_inv_def by auto
    qed
  qed
qed

lemma pool_inv_Release: "pool_inv s \<Longrightarrow> pool_inv (pool_step s (Release k err))"
proof (cases "held s k")
  case None
  then show "pool_inv s \<Longrightarrow> ?thesis" by simp
next
  case (Some h)
  assume inv: "pool_inv s"
  show ?thesis using inv Some
    unfolding pool_inv_def by (auto simp: putConn_def)
qed

lemma pool_inv_step: "pool_inv s \<Longrightarrow> pool_inv (pool_step s e)"
  by (cases e) (simp_all only: pool_inv_Acquire pool_inv_Release)

lemma pool_inv_run: "pool_inv s \<Longrightarrow> pool_inv (pool_run s evs)"
  unfolding pool_run_def by (induction evs arbitrary: s) (simp_all add: pool_inv_step)

lemma ldapclient_New_fields:
  assumes "ldapclient_New None cf = Inr c"
  shows "pool c = []" "closed_conns c = {}" "1 \<le> pool_cap c"
    "pool_cap c = max 1 (wrap_int64 (Concurrency cf * Connections cf))"
  using assms by (auto simp: ldapclient_New_def Let_def split: if_splits)

lemma pool_inv_start: "ldapclient_New None cf = Inr c \<Longrightarrow> pool_inv (pool_start c)"
  using ldapclient_New_fields[of cf c] by (simp add: pool_inv_def pool_start_def)

lemma pool_step_cap: "pool_cap (cl (pool_step s e)) = pool_cap (cl s)"
  by (cases e) (auto simp: getConn_def putConn_def split: list.splits option.splits)

lemma pool_run_cap: "pool_cap (cl (pool_run s evs)) = pool_cap (cl s)"
  unfolding pool_run_def by (induction evs arbitrary: s) (simp_all add: pool_step_cap)

lemma closed_step_mono: "h \<in> closed_conns (cl s) \<Longrightarrow> h \<in> closed_conns (cl (pool_step s e))"
  by (cases e) (auto simp: getConn_def putConn_def split: list.splits option.splits)

lemma acquired_step:
  assumes "pool_inv s" "h \<in> closed_conns (cl s)" "h \<notin> set (acquired s)"
  shows "h \<notin> set (acquired (pool_step s e))"
proof (cases e)
  case (Release k err)
  then show ?thesis using assms by (auto split: option.splits)
next
  case (Acquire k d)
  obtain r c' where g: "getConn d (cl s) = (r, c')" by (cases "getConn d (cl s)")
  have "r \<noteq> Some h"
    using getConn_cases[OF g] assms(1,2) unfolding pool_inv_def by auto
  then show ?thesis using Acquire g assms(3) by (auto split: option.splits)
qed

lemma tainted_never_acquired:
  "pool_inv s \<Longrightarrow> h \<in> closed_conns (cl s) \<Longrightarrow> h \<notin> set (acquired s) \<Longrightarrow>
   h \<notin> set (acquired (pool_run s evs))"
  unfolding pool_run_def
proof (induction evs arbitrary: s)
  case Nil
  then show ?case by simp
next
  case (Cons e evs)
  show ?case
    using Cons.IH[of "pool_step s e"] pool_inv_step[OF Cons.prems(1)]
      closed_step_mono[OF Cons.prems(2)] acquired_step[OF Cons.prems]
    by simp
qed

text \<open>
  A call of \<open>UserBind\<close> or \<open>UserSearch\<close> by a worker that holds nothing is an \<open>Acquire\<close>
  followed by a \<open>Release\<close> with the error of the operation.
\<close>

lemma UserBind_is_Acquire_Release:
  "held s k = None \<Longrightarrow>
   cl (pool_run s [Acquire k dial_ok, Release k bind_err]) = snd (client_UserBind dial_ok bind_err (cl s))"
  by (cases "getConn dial_ok (cl s)")
     (auto simp: pool_run_def client_UserBind_def split: option.splits)

lemma UserSearch_is_Acquire_Release:
  "held s k = None \<Longrightarrow>
   cl (pool_run s [Acquire k dial_ok,
         Release k (case bind_err of Some err \<Rightarrow> Some err
                    | None \<Rightarrow> (case search_res of Inl err \<Rightarrow> Some err | Inr n \<Rightarrow> None))])
     = snd (client_UserSearch dial_ok bind_err search_res (cl s))"
  by (cases "getConn dial_ok (cl s)")
     (auto simp: pool_run_def client_UserSearch_def split: option.splits sum.splits)

text \<open>
  C6: when a worker releases the connection it has borrowed with an error, the
  connection is closed and the pool is left as it was, so the connection is not in the
  pool; and in everything that happens afterwards no \<open>getConn\<close> returns it. (A \<open>getConn\<close>
  returns the oldest pooled connection or a newly dialed one.)
\<close>

theorem tainted_handle_is_never_acquired_again:
  assumes "ldapclient_New None cf = Inr c0"
    and "s = pool_run (pool_start c0) evs1"
    and "held s k = Some h"
    and "err \<noteq> None"
  shows "cl (pool_step s (Release k err)) = (cl s)\<lparr>closed_conns := insert h (closed_conns (cl s))\<rparr> \<and>
         h \<notin> set (pool (cl (pool_step s (Release k err)))) \<and>
         h \<notin> set (acquired (pool_run ((pool_step s (Release k err))\<lparr>acquired := []\<rparr>) evs2))"
proof -
  let ?s' = "pool_step s (Release k err)"
  have inv: "pool_inv s" using pool_inv_run[OF pool_inv_start[OF assms(1)]] assms(2) by simp
  have inv': "pool_inv ?s'" by (rule pool_inv_step[OF inv])
  have c: "cl ?s' = (cl s)\<lparr>closed_conns := insert h (closed_conns (cl s))\<rparr>"
    using assms(3,4) by (auto simp: putConn_def)
  have np: "h \<notin> set (pool (cl ?s'))" using inv assms(3) c unfolding pool_inv_def by auto
  have inv'': "pool_inv (?s'\<lparr>acquired := []\<rparr>)" using inv' by (simp add: pool_inv_def)
  have "h \<notin> set (acquired (pool_run (?s'\<lparr>acquired := []\<rparr>) evs2))"
    using tainted_never_acquired[OF inv'', of h evs2] c by simp
  then show ?thesis using c np by simp
qed

theorem tainted_handle_is_never_acquired_again_witness:
  "ldapclient_New None \<lparr>Mode = ''auth'', Filter = ''(objectClass=person)'', Concurrency = 2, Connections = 1\<rparr> =
     Inr \<lparr>conn = Some 0, pool = [], pool_cap = 2, closed_conns = {}, next_conn = 1\<rparr> \<and>
   held (pool_run (pool_start \<lparr>conn = Some 0, pool = [], pool_cap = 2, closed_conns = {}, next_conn = 1\<rparr>) [Acquire 0 True]) 0 = Some 1 \<and>
   Some ''broken pipe'' \<noteq> (None :: error option) \<and>
   1 \<notin> set (acquired (pool_run
       ((pool_step (pool_run (pool_start \<lparr>conn = Some 0, pool = [], pool_cap = 2, closed_conns = {}, next_conn = 1\<rparr>) [Acquire 0 True])
           (Release 0 (Some ''broken pipe'')))\<lparr>acquired := []\<rparr>)
       [Acquire 1 True, Release 1 None, Acquire 0 True, Acquire 1 True]))"
proof -
  have new: "ldapclient_New None \<lparr>Mode = ''auth'', Filter = ''(objectClass=person)'', Concurrency = 2, Connections = 1\<rparr> =
     Inr \<lparr>conn = Some 0, pool = [], pool_cap = 2, closed_conns = {}, next_conn = 1\<rparr>"
    by (simp add: ldapclient_New_def wrap_int64_def)
  have h: "held (pool_run (pool_start \<lparr>conn = Some 0, pool = [], pool_cap = 2, closed_conns = {}, next_conn = 1\<rparr>) [Acquire 0 True]) 0 = Some 1"
    by (simp add: pool_run_def pool_start_def getConn_def)
  have ne: "Some ''broken pipe'' \<noteq> (None :: error option)" by simp
  note t = tainted_handle_is_never_acquired_again[OF new refl h ne,
      of "[Acquire 1 True, Release 1 None, Acquire 0 True, Acquire 1 True]"]
  show ?thesis
    by (intro conjI new h ne conjunct2[OF conjunct2[OF t]])
qed

lemma putConn_bound:
  "int (length (pool c)) \<le> pool_cap c \<Longrightarrow>
   int (length (pool (putConn l err c))) \<le> pool_cap (putConn l err c) \<and>
   pool_cap (putConn l err c) = pool_cap c"
  by (auto simp: putConn_def split: option.splits)

lemma release_all_bound:
  "int (length (pool c)) \<le> pool_cap c \<Longrightarrow>
   int (length (pool (release_all c rs))) \<le> pool_cap c \<and> pool_cap (release_all c rs) = pool_cap c"
  unfolding release_all_def
proof (induction rs arbitrary: c)
  case Nil
  then show ?case by simp
next
  case (Cons r rs)
  obtain l err where r: "r = (l, err)" by (cases r)
  show ?case using Cons.IH[of "putConn l err c"] putConn_bound[OF Cons.prems, of l err] r by simp
qed

text \<open>
  C7: the pool made by \<open>ldapclient.New\<close> has capacity \<open>Concurrency * Connections\<close>, at
  least 1 (the product as Go computes it, which is the exact product whenever that fits
  an \<open>int\<close>); after any sequence of releases, with or without errors, and in every
  reachable state of concurrent use the pool holds at most that many connections; and a
  release without error into a full pool closes the connection and leaves the pool as it is.
\<close>

theorem pool_never_exceeds_capacity:
  assumes "ldapclient_New None cf = Inr c0"
  shows "pool_cap c0 = max 1 (wrap_int64 (Concurrency cf * Connections cf)) \<and>
         (- (2 ^ 63) \<le> Concurrency cf * Connections cf \<and> Concurrency cf * Connections cf < 2 ^ 63 \<longrightarrow>
            pool_cap c0 = max 1 (Concurrency cf * Connections cf)) \<and>
         int (length (pool (release_all c0 rs))) \<le> pool_cap c0 \<and>
         int (length (pool (cl (pool_run (pool_start c0) evs)))) \<le> pool_cap c0 \<and>
         (int (length (pool c)) \<ge> pool_cap c \<longrightarrow>
            putConn (Some l) None c = c\<lparr>closed_conns := insert l (closed_conns c)\<rparr>)"
proof -
  note f = ldapclient_New_fields[OF assms]
  have a: "int (length (pool (release_all c0 rs))) \<le> pool_cap c0"
    using release_all_bound[of c0 rs] f by simp
  have "pool_inv (pool_run (pool_start c0) evs)"
    by (rule pool_inv_run[OF pool_inv_start[OF assms]])
  then have b: "int (length (pool (cl (pool_run (pool_start c0) evs)))) \<le> pool_cap c0"
    using pool_run_cap[of "pool_start c0" evs] by (simp add: pool_inv_def pool_start_def)
  show ?thesis using f(4) a b by (auto simp: wrap_int64_id putConn_def)
qed

theorem pool_never_exceeds_capacity_witness:
  "ldapclient_New None \<lparr>Mode = ''auth'', Filter = ''(objectClass=person)'', Concurrency = 2, Connections = 1\<rparr> =
     Inr \<lparr>conn = Some 0, pool = [], pool_cap = 2, closed_conns = {}, next_conn = 1\<rparr> \<and>
   - (2 ^ 63) \<le> (2 :: int) * 1 \<and> (2 :: int) * 1 < 2 ^ 63 \<and>
   pool_cap \<lparr>conn = Some 0, pool = [], pool_cap = 2, closed_conns = {}, next_conn = 1\<rparr> = max 1 (2 * 1) \<and>
   int (length (pool (release_all \<lparr>conn = Some 0, pool = [], pool_cap = 2, closed_conns = {}, next_conn = 1\<rparr>
       [(Some 1, None), (Some 2, None), (Some 3, None)]))) \<le> 2 \<and>
   int (length (pool \<lparr>conn = Some 0, pool = [1, 2], pool_cap = 2, closed_conns = {},
                        next_conn = 4\<rparr>)) \<ge> 2 \<and>
   putConn (Some 3) None
     \<lparr>conn = Some 0, pool = [1, 2], pool_cap = 2, closed_conns = {}, next_conn = 4\<rparr> =
     \<lparr>conn = Some 0, pool = [1, 2], pool_cap = 2, closed_conns = {3}, next_conn = 4\<rparr>"
proof -
  have new: "ldapclient_New None \<lparr>Mode = ''auth'', Filter = ''(objectClass=person)'', Concurrency = 2, Connections = 1\<rparr> =
     Inr \<lparr>conn = Some 0, pool = [], pool_cap = 2, closed_conns = {}, next_conn = 1\<rparr>"
    by (simp add: ldapclient_New_def wrap_int64_def)
  show ?thesis
    using new pool_never_exceeds_capacity[OF new,
        of "[(Some 1, None), (Some 2, None), (Some 3, None)]" "[]"
           "\<lparr>conn = Some 0, pool = [1, 2], pool_cap = 2, closed_conns = {}, next_conn = 4\<rparr>" 3]
    by simp
qed

section \<open>Properties of percentile\<close>

subsection \<open>Rounding stays below a power of two\<close>

lemma bit_length_bounds:
  "0 < n \<Longrightarrow> (2::nat) ^ (bit_length n - 1) \<le> n \<and> n < 2 ^ bit_length n"
proof (induction n rule: bit_length.induct)
  case (1 n)
  show ?case
  proof (cases "n div 2 = 0")
    case True
    then have "n = 1" using 1(2) by presburger
    then show ?thesis by (simp add: bit_length.simps)
  next
    case False
    then have ih: "(2::nat) ^ (bit_length (n div 2) - 1) \<le> n div 2"
        "n div 2 < 2 ^ bit_length (n div 2)"
      using 1 by simp_all
    have "0 < bit_length (n div 2)" using False by (simp add: bit_length.simps)
    then obtain q where q: "bit_length (n div 2) = Suc q" by (cases "bit_length (n div 2)") auto
    have bl: "bit_length n = Suc (Suc q)" using 1(2) q by (simp add: bit_length.simps)
    have lo: "(2::nat) ^ q \<le> n div 2" using ih(1) q by simp
    have hi: "n div 2 + 1 \<le> 2 ^ Suc q" using ih(2) q by simp
    have "2 * (n div 2) \<le> n" by simp
    then have a: "(2::nat) ^ Suc q \<le> n" using lo by simp
    have "n < 2 * (n div 2 + 1)" by presburger
    also have "\<dots> \<le> 2 * 2 ^ Suc q" using hi by (simp only: mult_le_mono2)
    finally have b: "n < 2 ^ Suc (Suc q)" by simp
    show ?thesis using a b bl by simp
  qed
qed

lemma rne_le:
  assumes "a \<le> 2 ^ J" "D \<le> J"
  shows "round_nearest_even a D * 2 ^ D \<le> 2 ^ J"
proof -
  have split: "(2::nat) ^ J = 2 ^ (J - D) * 2 ^ D"
    using assms(2) by (simp add: power_add[symmetric])
  show ?thesis
  proof (cases "a = 2 ^ J")
    case True
    then have "a div 2 ^ D = 2 ^ (J - D)" "a mod 2 ^ D = 0" using split by simp_all
    then show ?thesis using split by (simp add: round_nearest_even_def Let_def)
  next
    case False
    then have "a < 2 ^ (J - D) * 2 ^ D" using assms(1) split by simp
    then have "a div 2 ^ D < 2 ^ (J - D)" by (simp add: less_mult_imp_div_less)
    then have "a div 2 ^ D + 1 \<le> 2 ^ (J - D)" by simp
    then have "(a div 2 ^ D + 1) * 2 ^ D \<le> 2 ^ (J - D) * 2 ^ D" by (rule mult_le_mono1)
    moreover have "round_nearest_even a D \<le> a div 2 ^ D + 1"
      by (simp add: round_nearest_even_def Let_def)
    ultimately show ?thesis using split
      by (metis (no_types, lifting) le_trans mult_le_mono1)
  qed
qed

lemma rne_zero:
  assumes "2 * a \<le> 2 ^ D" "0 < D"
  shows "round_nearest_even a D = 0"
proof -
  obtain n where n: "D = Suc n" using assms(2) by (cases D) auto
  have "a \<le> 2 ^ n" using assms(1) n by simp
  moreover have "(1::nat) \<le> 2 ^ n" by simp
  ultimately have "a < 2 * 2 ^ n" by linarith
  then have "a < 2 ^ D" using n by simp
  then show ?thesis using assms(1) by (simp add: round_nearest_even_def Let_def)
qed

lemma floor_fval:
  "\<lfloor>fval (Finite m e)\<rfloor> = (if e \<ge> 0 then m * 2 ^ nat e else m div 2 ^ nat (- e))"
proof (cases "e \<ge> 0")
  case True
  then have "2 powr (real_of_int e) = 2 ^ nat e"
    by (simp add: powr_realpow[symmetric])
  then have "fval (Finite m e) = of_int (m * 2 ^ nat e)" by simp
  then show ?thesis using True by (simp only: floor_of_int if_True)
next
  case False
  then have "real_of_int e = - real (nat (- e))" by simp
  then have "2 powr (real_of_int e) = inverse (2 powr real (nat (- e)))"
    by (simp only: powr_minus)
  also have "\<dots> = 1 / 2 ^ nat (- e)"
    by (simp add: powr_realpow inverse_eq_divide)
  finally have "2 powr (real_of_int e) = 1 / 2 ^ nat (- e)" .
  then have "fval (Finite m e) = of_int m / of_int (2 ^ nat (- e))" by simp
  then show ?thesis using False by (simp only: floor_divide_of_int_eq if_False)
qed


lemma powr_int_add: "(2::real) powr real_of_int (x + y) = 2 powr real_of_int x * 2 powr real_of_int y"
  by (simp add: powr_add)

lemma powr_nat: "0 \<le> j \<Longrightarrow> (2::real) powr real_of_int j = 2 ^ nat j"
  by (simp add: powr_realpow[symmetric])

lemma pow_le_powr: "(2::real) ^ k = 2 powr real k"
  by (simp add: powr_realpow)

lemma exp_le_from_vals:
  assumes "(2::real) ^ x * 2 powr real_of_int e \<le> 2 ^ k"
  shows "int x + e \<le> int k"
proof -
  have "(2::real) powr (real x + real_of_int e) \<le> 2 powr real k"
    using assms by (simp add: powr_add powr_realpow)
  then have "real x + real_of_int e \<le> real k" by simp
  then show ?thesis by linarith
qed

lemma round_float64_bound:
  assumes m: "0 \<le> m" and v: "real_of_int m * 2 powr real_of_int e \<le> 2 ^ k" and k: "k \<le> 1000"
  shows "\<exists>m' e'. round_float64 m e = Finite m' e' \<and> 0 \<le> m' \<and> fval (Finite m' e') \<le> 2 ^ k"
proof (cases "m = 0")
  case True
  then show ?thesis by (simp add: round_float64_def)
next
  case False
  define a where "a = nat \<bar>m\<bar>"
  define L where "L = bit_length a"
  define d where "d = max (int L - 53) (- 1074 - e)"
  have apos: "0 < a" and am: "int a = m" using m False by (simp_all add: a_def)
  have Lb: "2 ^ (L - 1) \<le> a" "a < 2 ^ L" using bit_length_bounds[OF apos] by (simp_all add: L_def)
  have Lpos: "0 < L" using Lb(2) apos by (cases L) auto
  have "(2::real) ^ (L - 1) \<le> real a" using Lb(1) by (metis of_nat_le_iff of_nat_numeral of_nat_power)
  then have "(2::real) ^ (L - 1) * 2 powr real_of_int e \<le> real a * 2 powr real_of_int e"
    by (simp add: mult_right_mono)
  also have "\<dots> \<le> 2 ^ k" using v am by (metis of_int_of_nat_eq)
  finally have "int (L - 1) + e \<le> int k" by (rule exp_le_from_vals)
  then have Le: "int L + e \<le> int k + 1" using Lpos by simp
  define a' where "a' = round_nearest_even a (nat d)"
  have rf: "round_float64 m e =
      (if d \<le> 0 then (if int L + e > 1024 then (if m < 0 then NegInf else PosInf)
                        else Finite m e)
       else if int (bit_length a') + (e + d) > 1024 then (if m < 0 then NegInf else PosInf)
       else Finite (sgn m * int a') (e + d))"
    unfolding round_float64_def Let_def a'_def d_def L_def a_def using False by simp
  show ?thesis
  proof (cases "d \<le> 0")
    case True
    then have "round_float64 m e = Finite m e"
      using rf Le k by simp
    then show ?thesis using m v by simp
  next
    case dpos: False
    have ed: "e + d \<le> int k - 52 \<or> e + d = - 1074" using Le by (auto simp: d_def max_def)
    have val: "real a' * 2 powr real_of_int (e + d) \<le> 2 ^ k"
    proof (cases "d \<le> int k - e")
      case True
      define J where "J = nat (int k - e)"
      have J: "int J = int k - e" using True dpos by (simp add: J_def)
      have "real a \<le> 2 ^ k * 2 powr real_of_int (- e)"
      proof -
        have "real a = (real a * 2 powr real_of_int e) * 2 powr real_of_int (- e)"
          by (simp add: powr_minus)
        also have "\<dots> \<le> 2 ^ k * 2 powr real_of_int (- e)"
          using v am by (metis mult_right_mono of_int_of_nat_eq powr_ge_zero)
        finally show ?thesis .
      qed
      also have "\<dots> = 2 powr real_of_int (int k - e)"
        by (simp add: powr_diff powr_realpow powr_minus field_simps)
      also have "\<dots> = 2 ^ J" using J powr_nat[of "int k - e"] True dpos by (simp add: J_def)
      finally have "real a \<le> 2 ^ J" .
      then have "a \<le> 2 ^ J" by (metis of_nat_le_iff of_nat_numeral of_nat_power)
      moreover have "nat d \<le> J" using True J by simp
      ultimately have "a' * 2 ^ nat d \<le> 2 ^ J" unfolding a'_def by (rule rne_le)
      then have "real (a' * 2 ^ nat d) \<le> real (2 ^ J)" by (simp only: of_nat_le_iff)
      then have le: "real a' * 2 ^ nat d \<le> 2 ^ J" by simp
      have "real a' * 2 powr real_of_int (e + d) = (real a' * 2 ^ nat d) * 2 powr real_of_int e"
        using dpos powr_nat[of d] by (simp add: powr_add)
      also have "\<dots> \<le> 2 ^ J * 2 powr real_of_int e"
        using le by (simp add: mult_right_mono)
      also have "\<dots> = 2 powr real_of_int (int J + e)"
        by (simp add: powr_add powr_realpow)
      also have "\<dots> = 2 ^ k" using J by (simp add: powr_realpow)
      finally show ?thesis .
    next
      case False
      then have lt: "int k - e < d" by simp
      have "real a * 2 powr real_of_int e \<le> 2 ^ k" using v am by (metis of_int_of_nat_eq)
      then have "real a \<le> 2 ^ k * 2 powr real_of_int (- e)"
      proof -
        assume h: "real a * 2 powr real_of_int e \<le> 2 ^ k"
        have "real a = (real a * 2 powr real_of_int e) * 2 powr real_of_int (- e)"
          by (simp add: powr_minus)
        also have "\<dots> \<le> 2 ^ k * 2 powr real_of_int (- e)"
          using h by (metis mult_right_mono powr_ge_zero)
        finally show ?thesis .
      qed
      also have "\<dots> = 2 powr real_of_int (int k - e)"
        by (simp add: powr_diff powr_realpow powr_minus field_simps)
      also have "\<dots> \<le> 2 powr real_of_int (d - 1)" using lt by simp
      also have "\<dots> = 2 ^ nat (d - 1)" using dpos powr_nat[of "d - 1"] by simp
      finally have "real a \<le> 2 ^ nat (d - 1)" .
      then have "a \<le> 2 ^ nat (d - 1)" by (metis of_nat_le_iff of_nat_numeral of_nat_power)
      then have "2 * a \<le> 2 * 2 ^ nat (d - 1)" by simp
      also have "2 * 2 ^ nat (d - 1) = (2::nat) ^ nat d"
        using dpos by (metis Suc_nat_eq_nat_zadd1 add.commute diff_add_cancel diff_ge_0_iff_ge linorder_not_le power_Suc zle_diff1_eq)
      finally have "a' = 0" unfolding a'_def using dpos by (intro rne_zero) simp_all
      then show ?thesis by simp
    qed
    have ovf: "int (bit_length a') + (e + d) \<le> 1024"
    proof (cases "a' = 0")
      case True
      then show ?thesis using ed k by (auto simp: bit_length.simps)
    next
      case False
      then have "2 ^ (bit_length a' - 1) \<le> a'" "0 < bit_length a'"
        using bit_length_bounds[of a'] by (auto simp: bit_length.simps)
      then have "(2::real) ^ (bit_length a' - 1) \<le> real a'"
        by (metis of_nat_le_iff of_nat_numeral of_nat_power)
      then have "(2::real) ^ (bit_length a' - 1) * 2 powr real_of_int (e + d) \<le> real a' * 2 powr real_of_int (e + d)"
        by (simp add: mult_right_mono)
      then have "(2::real) ^ (bit_length a' - 1) * 2 powr real_of_int (e + d) \<le> 2 ^ k"
        using val by linarith
      then have "int (bit_length a' - 1) + (e + d) \<le> int k" by (rule exp_le_from_vals)
      then show ?thesis using k \<open>0 < bit_length a'\<close> by linarith
    qed
    have "sgn m = 1" using m False by simp
    then have "round_float64 m e = Finite (int a') (e + d)"
      using rf dpos ovf by simp
    then show ?thesis using val by simp
  qed
qed


lemma fval_exp_nonneg: "0 \<le> e \<Longrightarrow> fval (Finite m e) = of_int (m * 2 ^ nat e)"
  by (simp add: powr_nat)

lemma fval_exp_neg: "e < 0 \<Longrightarrow> fval (Finite m e) = of_int m / 2 ^ nat (- e)"
proof -
  assume "e < 0"
  then have "real_of_int e = - real (nat (- e))" by simp
  then have "2 powr (real_of_int e) = inverse (2 powr real (nat (- e)))"
    by (simp only: powr_minus)
  then show ?thesis by (simp add: powr_realpow inverse_eq_divide)
qed

lemma f_le_0_iff: "f_le_0 (Finite m e) \<longleftrightarrow> fval (Finite m e) \<le> 0"
  by (simp add: mult_le_0_iff)

lemma f_ge_1_iff: "f_ge_1 (Finite m e) \<longleftrightarrow> 1 \<le> fval (Finite m e)"
proof (cases "0 \<le> e")
  case True
  have "1 \<le> m \<longleftrightarrow> 1 \<le> m * 2 ^ nat e"
  proof
    assume "1 \<le> m"
    then have "1 * 1 \<le> m * 2 ^ nat e" by (intro mult_mono) simp_all
    then show "1 \<le> m * 2 ^ nat e" by simp
  next
    assume a: "1 \<le> m * 2 ^ nat e"
    show "1 \<le> m"
    proof (rule ccontr)
      assume "\<not> 1 \<le> m"
      then have "m \<le> 0" by simp
      then have "m * 2 ^ nat e \<le> 0" by (simp add: mult_le_0_iff)
      then show False using a by simp
    qed
  qed
  moreover have "(1 \<le> fval (Finite m e)) = (1 \<le> m * 2 ^ nat e)"
    using True by (simp only: fval_exp_nonneg) linarith
  ultimately show ?thesis using True by (simp del: fval.simps)
next
  case False
  then have "e < 0" by simp
  then have "fval (Finite m e) = of_int m / 2 ^ nat (- e)" by (rule fval_exp_neg)
  moreover have "(1 \<le> real_of_int m / 2 ^ nat (- e)) = (2 ^ nat (- e) \<le> m)"
  proof -
    have "(1 \<le> real_of_int m / 2 ^ nat (- e)) = ((2::real) ^ nat (- e) \<le> real_of_int m)"
      by (simp add: le_divide_eq)
    also have "\<dots> = (real_of_int (2 ^ nat (- e)) \<le> real_of_int m)" by simp
    also have "\<dots> = (2 ^ nat (- e) \<le> m)" by (simp only: of_int_le_iff)
    finally show ?thesis .
  qed
  ultimately show ?thesis using False by (simp del: fval.simps)
qed

lemma int_of_float64_floor:
  assumes "0 \<le> m" "fval (Finite m e) \<le> 2 ^ 60"
  shows "int_of_float64 impl (Finite m e) = \<lfloor>fval (Finite m e)\<rfloor>"
proof -
  let ?t = "if e \<ge> 0 then m * 2 ^ nat e else sgn m * (\<bar>m\<bar> div 2 ^ nat (- e))"
  have "sgn m * (\<bar>m\<bar> div 2 ^ nat (- e)) = m div 2 ^ nat (- e)"
    using assms(1) by (cases "m = 0") simp_all
  then have t: "?t = \<lfloor>fval (Finite m e)\<rfloor>" by (simp add: floor_fval del: fval.simps)
  have "0 \<le> fval (Finite m e)" using assms(1) by simp
  then have lo: "0 \<le> \<lfloor>fval (Finite m e)\<rfloor>" by simp
  have "\<lfloor>fval (Finite m e)\<rfloor> \<le> \<lfloor>(2::real) ^ 60\<rfloor>" using assms(2) by (rule floor_mono)
  then have hi: "\<lfloor>fval (Finite m e)\<rfloor> \<le> 2 ^ 60" by simp
  have "- (2 ^ 63) \<le> ?t \<and> ?t < 2 ^ 63" using t lo hi by simp
  then have "int_of_float64 impl (Finite m e) = ?t"
    by (simp add: Let_def)
  then show ?thesis using t by simp
qed

lemma rank_is_floor:
  assumes n: "0 \<le> n" "n < 2 ^ 60" and p: "0 < m" "\<not> f_ge_1 (Finite m e)"
  shows "int_of_float64 impl (fmul (float64_of_int n) (Finite m e)) =
           \<lfloor>fval (fmul (float64_of_int n) (Finite m e))\<rfloor> \<and>
         0 \<le> int_of_float64 impl (fmul (float64_of_int n) (Finite m e))"
proof -
  have "real_of_int n * 2 powr real_of_int 0 \<le> 2 ^ 60" using n by simp
  then obtain m1 e1 where x: "float64_of_int n = Finite m1 e1" "0 \<le> m1"
      "fval (Finite m1 e1) \<le> 2 ^ 60"
    using round_float64_bound[of n 0 60] n(1) unfolding float64_of_int_def by auto
  have p1: "fval (Finite m e) \<le> 1" using p(2) f_ge_1_iff[of m e] by simp
  have p0: "0 \<le> fval (Finite m e)" using p(1) by simp
  have "real_of_int (m1 * m) * 2 powr real_of_int (e1 + e) = fval (Finite m1 e1) * fval (Finite m e)"
    by (simp add: powr_add)
  also have "\<dots> \<le> 2 ^ 60 * 1"
    using x(3) p1 p0 x(2) by (intro mult_mono) simp_all
  finally have "real_of_int (m1 * m) * 2 powr real_of_int (e1 + e) \<le> 2 ^ 60" by simp
  moreover have "0 \<le> m1 * m" using x(2) p(1) by simp
  ultimately obtain m' e' where r: "round_float64 (m1 * m) (e1 + e) = Finite m' e'" "0 \<le> m'"
      "fval (Finite m' e') \<le> 2 ^ 60"
    using round_float64_bound[of "m1 * m" "e1 + e" 60] by auto
  have f: "fmul (float64_of_int n) (Finite m e) = Finite m' e'" using x(1) r(1) by simp
  have "int_of_float64 impl (Finite m' e') = \<lfloor>fval (Finite m' e')\<rfloor>"
    using int_of_float64_floor[OF r(2,3)] .
  moreover have "0 \<le> \<lfloor>fval (Finite m' e')\<rfloor>" using r(2) by simp
  ultimately show ?thesis using f by simp
qed

lemma sorted_first_Min: "sorted xs \<Longrightarrow> xs \<noteq> [] \<Longrightarrow> xs ! 0 = Min (set xs)"
  by (cases xs) (auto intro!: Min_eqI[symmetric])

lemma sorted_last_Max:
  assumes "sorted xs" "xs \<noteq> []"
  shows "xs ! (length xs - 1) = Max (set xs)"
proof (rule Max_eqI[symmetric])
  show "finite (set xs)" by simp
  show "xs ! (length xs - 1) \<in> set xs" using assms(2) by simp
  fix y assume "y \<in> set xs"
  then obtain i where "i < length xs" "xs ! i = y" by (auto simp: in_set_conv_nth)
  then show "y \<le> xs ! (length xs - 1)"
    using sorted_nth_mono[OF assms(1), of i "length xs - 1"] by auto
qed


subsection \<open>The two products of the example\<close>

lemma bit_length_eqI:
  assumes "2 ^ (L - 1) \<le> n" "n < 2 ^ L" "0 < L"
  shows "bit_length n = L"
proof -
  have pos: "0 < n" using assms(1) by (metis gr0I not_less power_eq_0_iff zero_neq_numeral le_zero_eq)
  note b = bit_length_bounds[OF pos]
  have "\<not> bit_length n < L"
  proof
    assume "bit_length n < L"
    then have "(2::nat) ^ bit_length n \<le> 2 ^ (L - 1)" by (intro power_increasing) simp_all
    then show False using b assms(1) by linarith
  qed
  moreover have "\<not> L < bit_length n"
  proof
    assume "L < bit_length n"
    then have "(2::nat) ^ L \<le> 2 ^ (bit_length n - 1)" by (intro power_increasing) simp_all
    then show False using b assms(2) by linarith
  qed
  ultimately show ?thesis by simp
qed

lemma bl_5: "bit_length 5 = 3" by (rule bit_length_eqI) simp_all
lemma bl_a: "bit_length 44585636310967910 = 56" by (rule bit_length_eqI) simp_all
lemma bl_b: "bit_length 5573204538870989 = 53" by (rule bit_length_eqI) simp_all

lemma f5: "float64_of_int 5 = Finite 5 0"
  by (simp add: float64_of_int_def round_float64_def Let_def bl_5)

lemma fmul_5_050: "fmul (float64_of_int 5) f_0_50 = Finite 5 (- 1)"
  by (simp add: f5 f_0_50_def round_float64_def Let_def bl_5)

lemma fmul_5_099: "fmul (float64_of_int 5) f_0_99 = Finite 5573204538870989 (- 50)"
  by (simp add: f5 f_0_99_def round_float64_def Let_def bl_a bl_b round_nearest_even_def)

lemma fl_050: "\<lfloor>fval (Finite 5 (- 1))\<rfloor> = 2"
  by (simp only: floor_fval) simp

lemma fl_099: "\<lfloor>fval (Finite 5573204538870989 (- 50))\<rfloor> = 4"
  by (simp only: floor_fval) simp

subsection \<open>Nearest rank\<close>

text \<open>
  C4, as amended: for a non-empty slice sorted in ascending order (a slice of durations
  has fewer than \<open>2 ^ 60\<close> elements) and a finite \<open>p\<close>: the comparisons of the code are
  those of the numbers; for \<open>p \<le> 0\<close> the result is the minimum and for \<open>p \<ge> 1\<close> the
  maximum; in between it is the element at the rank, clamped to \<open>[0, N - 1]\<close>, that is
  the floor of the \<open>float64\<close> product of \<open>float64(N)\<close> and \<open>p\<close>, rounded to nearest as
  the code computes it. For the samples 1..5 ms this gives 3 ms at \<open>p = 0.50\<close> and 5 ms
  at \<open>p = 0.99\<close>.
\<close>

theorem percentile_nearest_rank:
  assumes "srt \<noteq> []" "sorted srt" "length srt < 2 ^ 60" "p = Finite m e"
  shows "(f_le_0 p \<longleftrightarrow> fval p \<le> 0) \<and> (f_ge_1 p \<longleftrightarrow> 1 \<le> fval p) \<and>
         (f_le_0 p \<longrightarrow> percentile impl srt p = Min (set srt)) \<and>
         (f_ge_1 p \<longrightarrow> percentile impl srt p = Max (set srt)) \<and>
         (\<not> f_le_0 p \<and> \<not> f_ge_1 p \<longrightarrow>
            percentile impl srt p =
              srt ! nat (max 0 (min (int (length srt) - 1)
                          \<lfloor>fval (fmul (float64_of_int (int (length srt))) p)\<rfloor>)))"
proof -
  have len: "length srt \<noteq> 0" using assms(1) by simp
  have a: "f_le_0 p \<longrightarrow> percentile impl srt p = Min (set srt)"
    using len sorted_first_Min[OF assms(2,1)] by (simp add: percentile_def)
  have ge_not_le: "f_ge_1 p \<Longrightarrow> \<not> f_le_0 p"
    using assms(4) f_ge_1_iff[of m e] f_le_0_iff[of m e] by simp
  have b: "f_ge_1 p \<longrightarrow> percentile impl srt p = Max (set srt)"
    using len sorted_last_Max[OF assms(2,1)] ge_not_le by (auto simp: percentile_def)
  have c: "\<not> f_le_0 p \<and> \<not> f_ge_1 p \<longrightarrow>
            percentile impl srt p =
              srt ! nat (max 0 (min (int (length srt) - 1)
                          \<lfloor>fval (fmul (float64_of_int (int (length srt))) p)\<rfloor>))"
  proof
    assume h: "\<not> f_le_0 p \<and> \<not> f_ge_1 p"
    define rank where "rank = int_of_float64 impl (fmul (float64_of_int (int (length srt))) p)"
    have n: "int (length srt) < 2 ^ 60" using assms(3) by (metis of_nat_less_iff of_nat_numeral of_nat_power)
    have mp: "0 < m" "\<not> f_ge_1 (Finite m e)" using h assms(4) by simp_all
    note rf = rank_is_floor[OF _ n mp, of impl]
    have r: "rank = \<lfloor>fval (fmul (float64_of_int (int (length srt))) p)\<rfloor>" "0 \<le> rank"
      using conjunct1[OF rf] conjunct2[OF rf] assms(4) unfolding rank_def by simp_all
    have "percentile impl srt p =
            (if rank \<le> 0 then srt ! 0
             else if rank \<ge> int (length srt) then srt ! (length srt - 1)
             else srt ! nat rank)"
      using len h by (simp add: percentile_def rank_def Let_def)
    also have "\<dots> = srt ! nat (max 0 (min (int (length srt) - 1) rank))"
    proof -
      have k: "nat (int (length srt) - 1) = length srt - 1" by arith
      consider "rank \<le> 0" | "int (length srt) \<le> rank" | "0 < rank" "rank < int (length srt)"
        by linarith
      then show ?thesis
      proof cases
        case 1
        then show ?thesis using r(2) by (simp add: max_def min_def)
      next
        case 2
        then have "max 0 (min (int (length srt) - 1) rank) = int (length srt) - 1"
          using len by (simp add: max_def min_def)
        then show ?thesis using 2 len k by simp
      next
        case 3
        then have "max 0 (min (int (length srt) - 1) rank) = rank"
          by arith
        then show ?thesis using 3 by simp
      qed
    qed
    finally show "percentile impl srt p =
              srt ! nat (max 0 (min (int (length srt) - 1)
                          \<lfloor>fval (fmul (float64_of_int (int (length srt))) p)\<rfloor>))"
      using r(1) by simp
  qed
  show ?thesis using a b c assms(4) f_le_0_iff[of m e] f_ge_1_iff[of m e] by blast
qed

theorem percentile_nearest_rank_witness:
  "[1000000, 2000000, 3000000, 4000000, 5000000] \<noteq> ([] :: int list) \<and>
   sorted ([1000000, 2000000, 3000000, 4000000, 5000000] :: int list) \<and>
   length ([1000000, 2000000, 3000000, 4000000, 5000000] :: int list) < 2 ^ 60 \<and>
   f_0_50 = Finite 1 (- 1) \<and> \<not> f_le_0 f_0_50 \<and> \<not> f_ge_1 f_0_50 \<and>
   percentile impl_amd64 [1000000, 2000000, 3000000, 4000000, 5000000] f_0_50 = 3000000 \<and>
   f_0_99 = Finite 8917127262193582 (- 53) \<and> \<not> f_le_0 f_0_99 \<and> \<not> f_ge_1 f_0_99 \<and>
   percentile impl_amd64 [1000000, 2000000, 3000000, 4000000, 5000000] f_0_99 = 5000000 \<and>
   f_le_0 (Finite 0 0) \<and>
   percentile impl_amd64 [1000000, 2000000, 3000000, 4000000, 5000000] (Finite 0 0) = Min (set [1000000, 2000000, 3000000, 4000000, 5000000]) \<and>
   f_ge_1 (Finite 1 0) \<and>
   percentile impl_amd64 [1000000, 2000000, 3000000, 4000000, 5000000] (Finite 1 0) = Max (set [1000000, 2000000, 3000000, 4000000, 5000000])"
proof -
  let ?xs = "[1000000, 2000000, 3000000, 4000000, 5000000] :: int list"
  have h1: "?xs \<noteq> []" by simp
  have h2: "sorted ?xs" by simp
  have h3: "length ?xs < 2 ^ 60" by simp
  have d50: "f_0_50 = Finite 1 (- 1)" by (simp add: f_0_50_def)
  have d99: "f_0_99 = Finite 8917127262193582 (- 53)" by (simp add: f_0_99_def)
  have n50: "\<not> f_le_0 f_0_50 \<and> \<not> f_ge_1 f_0_50" by (simp add: f_0_50_def)
  have n99: "\<not> f_le_0 f_0_99 \<and> \<not> f_ge_1 f_0_99" by (simp add: f_0_99_def)
  have z: "f_le_0 (Finite 0 0)" by simp
  have o: "f_ge_1 (Finite 1 0)" by simp
  note t50 = percentile_nearest_rank[OF h1 h2 h3 d50, of impl_amd64]
  note t99 = percentile_nearest_rank[OF h1 h2 h3 d99, of impl_amd64]
  note t0 = percentile_nearest_rank[OF h1 h2 h3 refl, of 0 0 impl_amd64]
  note t1 = percentile_nearest_rank[OF h1 h2 h3 refl, of 1 0 impl_amd64]
  have "percentile impl_amd64 ?xs f_0_50 =
          ?xs ! nat (max 0 (min (int (length ?xs) - 1)
                      \<lfloor>fval (fmul (float64_of_int (int (length ?xs))) f_0_50)\<rfloor>))"
    using t50 n50 by blast
  then have p50: "percentile impl_amd64 ?xs f_0_50 = 3000000"
    by (simp add: fmul_5_050 fl_050 del: fval.simps)
  have "percentile impl_amd64 ?xs f_0_99 =
          ?xs ! nat (max 0 (min (int (length ?xs) - 1)
                      \<lfloor>fval (fmul (float64_of_int (int (length ?xs))) f_0_99)\<rfloor>))"
    using t99 n99 by blast
  then have p99: "percentile impl_amd64 ?xs f_0_99 = 5000000"
    by (simp add: fmul_5_099 fl_099 del: fval.simps)
  have p0: "percentile impl_amd64 ?xs (Finite 0 0) = Min (set ?xs)" using t0 z by blast
  have p1: "percentile impl_amd64 ?xs (Finite 1 0) = Max (set ?xs)" using t1 o by blast
  show ?thesis
    using h1 h2 h3 d50 d99 n50 n99 z o p50 p99 p0 p1 by (intro conjI) (elim conjE, assumption)+
qed

text \<open>
  The rounded product can reach an integer that the product of the numbers stays
  below: for 100 samples and \<open>p = 0.99\<close> the code reads rank 99, while the floor of the
  product of the numbers is 98.
\<close>

lemma bl_100: "bit_length 100 = 7" by (rule bit_length_eqI) simp_all
lemma bl_c: "bit_length 891712726219358200 = 60" by (rule bit_length_eqI) simp_all
lemma bl_d: "bit_length 6966505673588736 = 53" by (rule bit_length_eqI) simp_all

lemma f100: "float64_of_int 100 = Finite 100 0"
  by (simp add: float64_of_int_def round_float64_def Let_def bl_100)

lemma fmul_100_099: "fmul (float64_of_int 100) f_0_99 = Finite 6966505673588736 (- 46)"
  by (simp add: f100 f_0_99_def round_float64_def Let_def bl_c bl_d round_nearest_even_def)

lemma rank_100_099:
  "int_of_float64 impl_amd64 (fmul (float64_of_int 100) f_0_99) = 99"
  by (simp add: fmul_100_099)

lemma exact_100_099: "\<lfloor>real 100 * fval f_0_99\<rfloor> = 98"
proof -
  have "fval f_0_99 = real_of_int 8917127262193582 / 2 ^ nat (- (- 53))"
    unfolding f_0_99_def by (rule fval_exp_neg) simp
  then have "real 100 * fval f_0_99 =
               real_of_int 891712726219358200 / real_of_int 9007199254740992"
    by simp
  then have "\<lfloor>real 100 * fval f_0_99\<rfloor> = 891712726219358200 div 9007199254740992"
    by (simp only: floor_divide_of_int_eq)
  then show ?thesis by simp
qed

theorem percentile_rounded_product_counterexample:
  "sorted (map int [1..<101]) \<and>
   percentile impl_amd64 (map int [1..<101]) f_0_99 = 100 \<and>
   map int [1..<101] ! nearest_rank_exact (length (map int [1..<101])) (fval f_0_99) = 99 \<and>
   percentile impl_amd64 (map int [1..<101]) f_0_99 \<noteq>
     map int [1..<101] ! nearest_rank_exact (length (map int [1..<101])) (fval f_0_99)"
proof -
  have srt: "sorted (map int [1..<101])" by (simp add: sorted_map)
  have n: "\<not> f_le_0 f_0_99 \<and> \<not> f_ge_1 f_0_99" by (simp add: f_0_99_def)
  have p: "percentile impl_amd64 (map int [1..<101]) f_0_99 = 100"
    using n by (simp add: percentile_def rank_100_099 del: upt_Suc)
  have "nearest_rank_exact (length (map int [1..<101])) (fval f_0_99) = 98"
    using exact_100_099 by (simp add: nearest_rank_exact_def del: fval.simps)
  then have e: "map int [1..<101] ! nearest_rank_exact (length (map int [1..<101])) (fval f_0_99) = 99"
    by (simp del: upt_Suc fval.simps)
  show ?thesis using srt p e by simp
qed

end
